theory Spec2Isabelle
  imports Complex_Main "HOL-Library.Product_Lexorder" "HOL-Library.Sublist" "HOL-Library.Multiset"
begin

section \<open>Python strings\<close>

text \<open>
  A Python \<^verbatim>\<open>str\<close> is modelled as a \<^typ>\<open>string\<close>, one \<^typ>\<open>char\<close> per code point
  (code points 0 to 255).  \<^verbatim>\<open>str.isspace\<close> on that range holds for the code points
  9 to 13, 28 to 32, 133 and 160; \<^verbatim>\<open>str.strip\<close>, \<^verbatim>\<open>str.rstrip\<close> remove such characters
  from the ends.
\<close>

definition isspace :: "char \<Rightarrow> bool" where
  "isspace c = (of_char c \<in> {9, 10, 11, 12, 13, 28, 29, 30, 31, 32, 133, 160 :: nat})"

definition lstrip :: "string \<Rightarrow> string" where
  "lstrip s = dropWhile isspace s"

definition rstrip :: "string \<Rightarrow> string" where
  "rstrip s = rev (dropWhile isspace (rev s))"

definition strip :: "string \<Rightarrow> string" where
  "strip s = rstrip (lstrip s)"

definition startswith :: "'a list \<Rightarrow> 'a list \<Rightarrow> bool" where
  "startswith s p = (take (length p) s = p)"


section \<open>Errors\<close>

text \<open>
  The exceptions the program and its library calls can raise.  \<open>ValueError\<close> carries its
  message: the one raised by \<^verbatim>\<open>detect_file_type\<close> is the error the user sees for an
  unsupported format.  \<open>JSONDecodeError\<close> is \<^verbatim>\<open>json.JSONDecodeError\<close> and \<open>ParseError\<close> is
  \<^verbatim>\<open>ET.ParseError\<close>, the two exceptions \<^verbatim>\<open>detect_file_type\<close> catches; an \<^verbatim>\<open>except\<close> clause for
  one of them catches nothing else.
\<close>

datatype error =
    ValueError string
  | TypeError
  | AttributeError
  | JSONDecodeError
  | ParseError
  | RecursionError

section \<open>Format detection\<close>

text \<open>
  \<^verbatim>\<open>json.loads\<close> and \<^verbatim>\<open>ET.fromstring\<close> are library parsers; they are parameters of the
  model.  A parser returns a tree (\<open>Inr\<close>) or raises (\<open>Inl\<close>): its decode error when the text
  does not parse, or any other exception (\<^verbatim>\<open>json.loads\<close> raises a plain \<open>ValueError\<close> for an
  integer of more than 4300 digits and \<open>RecursionError\<close> for very deep nesting).
  \<^verbatim>\<open>detect_file_type\<close> catches the decode error of each parser and goes on (\<open>Inr None\<close>
  below); every other exception leaves the function.
\<close>

definition unsupported_msg :: string where
  "unsupported_msg = ''Unsupported file format. Please upload a valid JSON or XML file.''"

definition detect_file_type ::
  "(string \<Rightarrow> error + 'j) \<Rightarrow> (string \<Rightarrow> error + 'x) \<Rightarrow> string \<Rightarrow> error + string" where
  "detect_file_type json_loads fromstring content0 =
     (let content = strip content0;
          json_try =
            (if startswith content ''{'' \<or> startswith content ''['' then
               (case json_loads content of
                  Inr _ \<Rightarrow> Inr (Some ''json'')
                | Inl e \<Rightarrow> if e = JSONDecodeError then Inr None else Inl e)
             else Inr None)
      in case json_try of
           Inl e \<Rightarrow> Inl e
         | Inr (Some r) \<Rightarrow> Inr r
         | Inr None \<Rightarrow>
            (let xml_try =
               (if startswith content ''<?xml'' \<or> startswith content ''<'' then
                  (case fromstring content of
                     Inr _ \<Rightarrow> Inr (Some ''xml'')
                   | Inl e \<Rightarrow> if e = ParseError then Inr None else Inl e)
                else Inr None)
             in case xml_try of
                  Inl e \<Rightarrow> Inl e
                | Inr (Some r) \<Rightarrow> Inr r
                | Inr None \<Rightarrow> Inl (ValueError unsupported_msg)))"

text \<open>The two conditions of the claim: the prefix heuristic matches and the strict parse succeeds.\<close>

definition json_accepts :: "(string \<Rightarrow> error + 'j) \<Rightarrow> string \<Rightarrow> bool" where
  "json_accepts json_loads content0 =
     ((startswith (strip content0) ''{'' \<or> startswith (strip content0) ''['')
      \<and> \<not> isl (json_loads (strip content0)))"

definition xml_accepts :: "(string \<Rightarrow> error + 'x) \<Rightarrow> string \<Rightarrow> bool" where
  "xml_accepts fromstring content0 =
     ((startswith (strip content0) ''<?xml'' \<or> startswith (strip content0) ''<'')
      \<and> \<not> isl (fromstring (strip content0)))"

text \<open>
  The exception other than its decode error that a parser raises when the prefix heuristic
  has \<^verbatim>\<open>detect_file_type\<close> call it, if there is one.
\<close>

definition other_exception ::
  "(string \<Rightarrow> error + 'j) \<Rightarrow> (string \<Rightarrow> error + 'x) \<Rightarrow> string \<Rightarrow> error option" where
  "other_exception json_loads fromstring content0 =
     (let content = strip content0 in
      if startswith content ''{'' \<or> startswith content ''['' then
        (case json_loads content of
           Inl e \<Rightarrow> if e = JSONDecodeError then None else Some e
         | Inr _ \<Rightarrow> None)
      else if startswith content ''<?xml'' \<or> startswith content ''<'' then
        (case fromstring content of
           Inl e \<Rightarrow> if e = ParseError then None else Some e
         | Inr _ \<Rightarrow> None)
      else None)"

section \<open>JSON values as Python objects\<close>

text \<open>
  What \<^verbatim>\<open>json.loads\<close> returns: \<^verbatim>\<open>None\<close>, a \<^verbatim>\<open>bool\<close>, an \<^verbatim>\<open>int\<close>, a \<^verbatim>\<open>float\<close>, a
  \<^verbatim>\<open>str\<close>, a \<^verbatim>\<open>list\<close> or a \<^verbatim>\<open>dict\<close> with string keys.  A \<^verbatim>\<open>float\<close> is represented by
  the text \<^verbatim>\<open>json.dumps\<close> writes for it (its \<^verbatim>\<open>repr\<close>, or \<open>NaN\<close>, \<open>Infinity\<close>,
  \<open>-Infinity\<close>).  Lists and dicts are mutable objects: each carries its identity \<open>'i\<close>, so
  that an update in place can be told from an update of a copy.  A dict is the list of its
  items in insertion order, with distinct keys.
\<close>

datatype 'i json =
    JNull
  | JBool bool
  | JInt int
  | JFloat string
  | JStr string
  | JList 'i "'i json list"
  | JDict 'i "(string \<times> 'i json) list"

text \<open>
  Building the objects of a JSON value, each list and dict with a fresh identity, counted
  up from \<open>n\<close>.  This is what a parser does (\<^verbatim>\<open>json.loads\<close>), and what
  \<^verbatim>\<open>json.loads(json.dumps(x))\<close> does for a value \<open>x\<close> that came from a parser: the text is an
  immutable snapshot of \<open>x\<close>, and parsing it builds new objects with the same contents.
\<close>

fun alloc_json :: "nat \<Rightarrow> 'i json \<Rightarrow> nat json \<times> nat"
and alloc_jsons :: "nat \<Rightarrow> 'i json list \<Rightarrow> nat json list \<times> nat"
and alloc_items :: "nat \<Rightarrow> (string \<times> 'i json) list \<Rightarrow> (string \<times> nat json) list \<times> nat" where
  "alloc_json n JNull = (JNull, n)"
| "alloc_json n (JBool b) = (JBool b, n)"
| "alloc_json n (JInt k) = (JInt k, n)"
| "alloc_json n (JFloat r) = (JFloat r, n)"
| "alloc_json n (JStr s) = (JStr s, n)"
| "alloc_json n (JList _ xs) = (case alloc_jsons (Suc n) xs of (xs', n') \<Rightarrow> (JList n xs', n'))"
| "alloc_json n (JDict _ kvs) = (case alloc_items (Suc n) kvs of (kvs', n') \<Rightarrow> (JDict n kvs', n'))"
| "alloc_jsons n [] = ([], n)"
| "alloc_jsons n (x # xs) =
     (case alloc_json n x of (x', n1) \<Rightarrow>
        (case alloc_jsons n1 xs of (xs', n2) \<Rightarrow> (x' # xs', n2)))"
| "alloc_items n [] = ([], n)"
| "alloc_items n (kv # kvs) =
     (case alloc_json n (snd kv) of (v', n1) \<Rightarrow>
        (case alloc_items n1 kvs of (kvs', n2) \<Rightarrow> ((fst kv, v') # kvs', n2)))"

text \<open>The identities of the objects of a value.\<close>

fun json_ids :: "'i json \<Rightarrow> 'i list"
and jsons_ids :: "'i json list \<Rightarrow> 'i list"
and items_ids :: "(string \<times> 'i json) list \<Rightarrow> 'i list" where
  "json_ids JNull = []"
| "json_ids (JBool b) = []"
| "json_ids (JInt k) = []"
| "json_ids (JFloat r) = []"
| "json_ids (JStr s) = []"
| "json_ids (JList i xs) = i # jsons_ids xs"
| "json_ids (JDict i kvs) = i # items_ids kvs"
| "jsons_ids [] = []"
| "jsons_ids (x # xs) = json_ids x @ jsons_ids xs"
| "items_ids [] = []"
| "items_ids (kv # kvs) = json_ids (snd kv) @ items_ids kvs"

text \<open>
  \<open>update_obj i f v\<close>: the value \<open>v\<close> after the object with identity \<open>i\<close> was updated in
  place by \<open>f\<close>.  \<open>lookup_obj i v\<close>: the object with identity \<open>i\<close> as reachable from \<open>v\<close>.
\<close>

fun update_obj :: "'i \<Rightarrow> ('i json \<Rightarrow> 'i json) \<Rightarrow> 'i json \<Rightarrow> 'i json"
and update_objs :: "'i \<Rightarrow> ('i json \<Rightarrow> 'i json) \<Rightarrow> 'i json list \<Rightarrow> 'i json list"
and update_items :: "'i \<Rightarrow> ('i json \<Rightarrow> 'i json) \<Rightarrow> (string \<times> 'i json) list
                      \<Rightarrow> (string \<times> 'i json) list" where
  "update_obj i f JNull = JNull"
| "update_obj i f (JBool b) = JBool b"
| "update_obj i f (JInt k) = JInt k"
| "update_obj i f (JFloat r) = JFloat r"
| "update_obj i f (JStr s) = JStr s"
| "update_obj i f (JList j xs) = (if i = j then f (JList j xs) else JList j (update_objs i f xs))"
| "update_obj i f (JDict j kvs) = (if i = j then f (JDict j kvs) else JDict j (update_items i f kvs))"
| "update_objs i f [] = []"
| "update_objs i f (x # xs) = update_obj i f x # update_objs i f xs"
| "update_items i f [] = []"
| "update_items i f (kv # kvs) = (fst kv, update_obj i f (snd kv)) # update_items i f kvs"

fun lookup_obj :: "'i \<Rightarrow> 'i json \<Rightarrow> 'i json option"
and lookup_objs :: "'i \<Rightarrow> 'i json list \<Rightarrow> 'i json option"
and lookup_items :: "'i \<Rightarrow> (string \<times> 'i json) list \<Rightarrow> 'i json option" where
  "lookup_obj i JNull = None"
| "lookup_obj i (JBool b) = None"
| "lookup_obj i (JInt k) = None"
| "lookup_obj i (JFloat r) = None"
| "lookup_obj i (JStr s) = None"
| "lookup_obj i (JList j xs) = (if i = j then Some (JList j xs) else lookup_objs i xs)"
| "lookup_obj i (JDict j kvs) = (if i = j then Some (JDict j kvs) else lookup_items i kvs)"
| "lookup_objs i [] = None"
| "lookup_objs i (x # xs) =
     (case lookup_obj i x of Some v \<Rightarrow> Some v | None \<Rightarrow> lookup_objs i xs)"
| "lookup_items i [] = None"
| "lookup_items i (kv # kvs) =
     (case lookup_obj i (snd kv) of Some v \<Rightarrow> Some v | None \<Rightarrow> lookup_items i kvs)"

subsection \<open>Dict and container operations\<close>

text \<open>
  \<^verbatim>\<open>d[k] = v\<close> replaces the value of an existing key where it stands and appends a new
  key; \<^verbatim>\<open>del d[k]\<close> removes the item; \<^verbatim>\<open>k in d\<close> tests the keys.
\<close>

fun items_set :: "string \<Rightarrow> 'v \<Rightarrow> (string \<times> 'v) list \<Rightarrow> (string \<times> 'v) list" where
  "items_set k v [] = [(k, v)]"
| "items_set k v (kv # kvs) = (if fst kv = k then (k, v) # kvs else kv # items_set k v kvs)"

definition items_del :: "string \<Rightarrow> (string \<times> 'v) list \<Rightarrow> (string \<times> 'v) list" where
  "items_del k kvs = filter (\<lambda>kv. fst kv \<noteq> k) kvs"

definition items_has :: "string \<Rightarrow> (string \<times> 'v) list \<Rightarrow> bool" where
  "items_has k kvs = (k \<in> set (map fst kvs))"

definition dict_setitem :: "string \<Rightarrow> 'i json \<Rightarrow> 'i json \<Rightarrow> 'i json" where
  "dict_setitem k v d = (case d of JDict i kvs \<Rightarrow> JDict i (items_set k v kvs) | _ \<Rightarrow> d)"

definition dict_delitem :: "string \<Rightarrow> 'i json \<Rightarrow> 'i json" where
  "dict_delitem k d = (case d of JDict i kvs \<Rightarrow> JDict i (items_del k kvs) | _ \<Rightarrow> d)"

text \<open>
  \<^verbatim>\<open>s in x\<close> for a string \<open>s\<close>: a key test on a dict, a membership test on a list (only a
  string equals a string), a substring test on a string, and a \<open>TypeError\<close> on \<^verbatim>\<open>None\<close>,
  a bool, an int or a float, which are not containers.
\<close>

definition str_in :: "string \<Rightarrow> 'i json \<Rightarrow> error + bool" where
  "str_in s x =
     (case x of
        JDict _ kvs \<Rightarrow> Inr (items_has s kvs)
      | JList _ xs \<Rightarrow> Inr (list_ex (\<lambda>y. case y of JStr t \<Rightarrow> t = s | _ \<Rightarrow> False) xs)
      | JStr t \<Rightarrow> Inr (sublist s t)
      | _ \<Rightarrow> Inl TypeError)"

section \<open>The JSON transform\<close>

text \<open>
  The variables of \<^verbatim>\<open>modify_json\<close>: the caller's \<^verbatim>\<open>json_data\<close> and the local
  \<^verbatim>\<open>modified_data\<close>.  An update in place of the object \<open>i\<close> is seen through every variable
  that reaches the object.
\<close>

record json_vars =
  json_data :: "nat json"
  modified_data :: "nat json"

definition mutate_json :: "nat \<Rightarrow> (nat json \<Rightarrow> nat json) \<Rightarrow> json_vars \<Rightarrow> json_vars" where
  "mutate_json i f st =
     st\<lparr>json_data := update_obj i f (json_data st),
        modified_data := update_obj i f (modified_data st)\<rparr>"

definition deref_json :: "nat \<Rightarrow> json_vars \<Rightarrow> nat json option" where
  "deref_json i st =
     (case lookup_obj i (modified_data st) of
        Some v \<Rightarrow> Some v
      | None \<Rightarrow> lookup_obj i (json_data st))"

definition user_query_text :: string where
  "user_query_text = ''Display Hunter Dickinson's jump shots under guard from the second half of the last game, last season, and previous season''"

text \<open>
  \<^verbatim>\<open>del item["parameters"]["offensive_player"]\<close>, for the object \<open>pv\<close> that
  \<^verbatim>\<open>item["parameters"]\<close> is: a dict loses the key; a list raises (its indices must be
  integers) and so does a string (no item deletion).
\<close>

definition del_offensive_player :: "nat json \<Rightarrow> json_vars \<Rightarrow> error \<times> json_vars + json_vars" where
  "del_offensive_player pv st =
     (case pv of
        JDict pd _ \<Rightarrow> Inr (mutate_json pd (dict_delitem ''offensive_player'') st)
      | _ \<Rightarrow> Inl (TypeError, st))"

text \<open>
  The body of the loop over the items of a list, for one \<open>item\<close>.  An exception is returned
  with the variables as they are when it is raised: the updates made before it stay.
\<close>

definition modify_item :: "nat json \<Rightarrow> json_vars \<Rightarrow> error \<times> json_vars + json_vars" where
  "modify_item item st =
     (case item of
        JDict d _ \<Rightarrow>
          (let st1 = mutate_json d (dict_setitem ''user_query'' (JStr user_query_text)) st;
               st2 = mutate_json d (dict_setitem ''new'' (JStr ''Something'')) st1
           in case deref_json d st2 of
                Some (JDict _ kvs) \<Rightarrow>
                  (if items_has ''parameters'' kvs then
                     (case map_of kvs ''parameters'' of
                        Some pv \<Rightarrow>
                          (case str_in ''offensive_player'' pv of
                             Inl e \<Rightarrow> Inl (e, st2)
                           | Inr True \<Rightarrow> del_offensive_player pv st2
                           | Inr False \<Rightarrow> Inr st2)
                      | None \<Rightarrow> Inr st2)
                   else Inr st2)
              | _ \<Rightarrow> Inr st2)
      | _ \<Rightarrow> Inr st)"

fun modify_items :: "nat json list \<Rightarrow> json_vars \<Rightarrow> error \<times> json_vars + json_vars" where
  "modify_items [] st = Inr st"
| "modify_items (item # items) st =
     (case modify_item item st of Inl raised \<Rightarrow> Inl raised | Inr st' \<Rightarrow> modify_items items st')"

text \<open>
  \<^verbatim>\<open>modify_json\<close>, called with the object \<open>jd\<close> when \<open>n\<close> is the next fresh identity.  The
  result is the caller's object as it is after the call, and what the call returns or
  raises.
\<close>

definition modify_json :: "nat \<Rightarrow> nat json \<Rightarrow> nat json \<times> (error + nat json)" where
  "modify_json n jd =
     (if jd = JNull then (jd, Inr JNull)
      else
        (let st = \<lparr>json_data = jd, modified_data = fst (alloc_json n jd)\<rparr> in
         case modified_data st of
           JList _ items \<Rightarrow>
             (case modify_items items st of
                Inl (e, st') \<Rightarrow> (json_data st', Inl e)
              | Inr st' \<Rightarrow> (json_data st', Inr (modified_data st')))
         | JDict d _ \<Rightarrow>
             (let st1 = mutate_json d (dict_setitem ''new_field'' (JStr ''This is a new value'')) st
              in case deref_json d st1 of
                   Some (JDict _ kvs) \<Rightarrow>
                     (if items_has ''to_delete'' kvs then
                        (let st2 = mutate_json d (dict_delitem ''to_delete'') st1
                         in (json_data st2, Inr (modified_data st2)))
                      else (json_data st1, Inr (modified_data st1)))
                 | _ \<Rightarrow> (json_data st1, Inr (modified_data st1)))
         | _ \<Rightarrow> (json_data st, Inr (modified_data st))))"


section \<open>XML elements as Python objects\<close>

text \<open>
  An \<^verbatim>\<open>xml.etree.ElementTree.Element\<close>: its tag, its attributes, its text, its tail and
  its children in document order.  Elements are mutable objects: each carries its identity
  \<open>'i\<close>.  A parsed document is a tree; the parser does not keep comments or processing
  instructions, so every node is an element whose tag is a string.
\<close>

datatype 'i element =
  Element (ident: 'i) (tag: string) (attrib: "(string \<times> string) list")
          (etext: "string option") (tail: "string option") (children: "'i element list")

text \<open>
  Building the objects of a tree, each with a fresh identity counted up from \<open>n\<close>: what
  \<^verbatim>\<open>ET.fromstring\<close> does for the tree it has parsed, and what \<^verbatim>\<open>deepcopy\<close> does for the
  tree it copies.
\<close>

fun alloc_element :: "nat \<Rightarrow> 'i element \<Rightarrow> nat element \<times> nat"
and alloc_elements :: "nat \<Rightarrow> 'i element list \<Rightarrow> nat element list \<times> nat" where
  "alloc_element n (Element _ t a x l cs) =
     (case alloc_elements (Suc n) cs of (cs', n') \<Rightarrow> (Element n t a x l cs', n'))"
| "alloc_elements n [] = ([], n)"
| "alloc_elements n (c # cs) =
     (case alloc_element n c of (c', n1) \<Rightarrow>
        (case alloc_elements n1 cs of (cs', n2) \<Rightarrow> (c' # cs', n2)))"

text \<open>\<^verbatim>\<open>Element.iter()\<close>: the element and all its descendants, in document order.\<close>

fun iter_elems :: "'i element \<Rightarrow> 'i element list" where
  "iter_elems (Element i t a x l cs) = Element i t a x l cs # concat (map iter_elems cs)"

definition descendants :: "'i element \<Rightarrow> 'i element list" where
  "descendants e = concat (map iter_elems (children e))"

text \<open>
  \<^verbatim>\<open>e.findall(".//tag")\<close>: the descendants of \<open>e\<close> with that tag, \<open>e\<close> itself left out, in
  document order.  \<^verbatim>\<open>e.findall("tag")\<close>: the children of \<open>e\<close> with that tag.
\<close>

definition findall_descendants :: "string \<Rightarrow> 'i element \<Rightarrow> 'i element list" where
  "findall_descendants tg e = filter (\<lambda>d. tag d = tg) (descendants e)"

definition findall_children :: "string \<Rightarrow> 'i element \<Rightarrow> 'i element list" where
  "findall_children tg e = filter (\<lambda>c. tag c = tg) (children e)"

text \<open>
  \<open>update_elem i f e\<close>: the tree \<open>e\<close> after the element with identity \<open>i\<close> was updated in
  place by \<open>f\<close>.  \<open>lookup_elem i e\<close>: the element with identity \<open>i\<close> as reachable from \<open>e\<close>.
\<close>

fun update_elem :: "'i \<Rightarrow> ('i element \<Rightarrow> 'i element) \<Rightarrow> 'i element \<Rightarrow> 'i element" where
  "update_elem i f (Element j t a x l cs) =
     (if i = j then f (Element j t a x l cs)
      else Element j t a x l (map (update_elem i f) cs))"

fun lookup_elem :: "'i \<Rightarrow> 'i element \<Rightarrow> 'i element option"
and lookup_elems :: "'i \<Rightarrow> 'i element list \<Rightarrow> 'i element option" where
  "lookup_elem i (Element j t a x l cs) =
     (if i = j then Some (Element j t a x l cs) else lookup_elems i cs)"
| "lookup_elems i [] = None"
| "lookup_elems i (c # cs) =
     (case lookup_elem i c of Some e \<Rightarrow> Some e | None \<Rightarrow> lookup_elems i cs)"

subsection \<open>Element operations\<close>

text \<open>
  \<^verbatim>\<open>parent.remove(child)\<close> removes the first child that is the object \<open>child\<close>;
  \<^verbatim>\<open>parent.append(child)\<close> adds a last child; \<^verbatim>\<open>elem.text = s\<close> sets the text.
  (\<^verbatim>\<open>remove\<close> raises \<open>ValueError\<close> for an object that is not a child; the transform only
  removes elements it has just found among the children.)
\<close>

fun remove_ident :: "'i \<Rightarrow> 'i element list \<Rightarrow> 'i element list" where
  "remove_ident c [] = []"
| "remove_ident c (e # es) = (if ident e = c then es else e # remove_ident c es)"

definition remove_child :: "'i \<Rightarrow> 'i element \<Rightarrow> 'i element" where
  "remove_child c p =
     Element (ident p) (tag p) (attrib p) (etext p) (tail p) (remove_ident c (children p))"

definition append_child :: "'i element \<Rightarrow> 'i element \<Rightarrow> 'i element" where
  "append_child c p =
     Element (ident p) (tag p) (attrib p) (etext p) (tail p) (children p @ [c])"

definition set_text :: "string option \<Rightarrow> 'i element \<Rightarrow> 'i element" where
  "set_text s e = Element (ident e) (tag e) (attrib e) s (tail e) (children e)"

section \<open>The XML transform\<close>

text \<open>
  The variables of \<^verbatim>\<open>modify_xml\<close>: the caller's \<^verbatim>\<open>xml_root\<close>, the local
  \<^verbatim>\<open>modified_root\<close>, and the next fresh identity for the elements the transform creates.
  An update in place of the element \<open>i\<close> is seen through every variable that reaches it.
\<close>

record xml_vars =
  xml_root :: "nat element"
  modified_root :: "nat element"
  next_id :: nat

definition mutate_xml :: "nat \<Rightarrow> (nat element \<Rightarrow> nat element) \<Rightarrow> xml_vars \<Rightarrow> xml_vars" where
  "mutate_xml i f st =
     st\<lparr>xml_root := update_elem i f (xml_root st),
        modified_root := update_elem i f (modified_root st)\<rparr>"

definition deref_xml :: "nat \<Rightarrow> xml_vars \<Rightarrow> nat element option" where
  "deref_xml i st =
     (case lookup_elem i (modified_root st) of
        Some e \<Rightarrow> Some e
      | None \<Rightarrow> lookup_elem i (xml_root st))"

text \<open>
  The body of the first loop, for the element \<open>params\<close>: every \<open>team_name\<close> child found is
  removed.  An element that an earlier round has cut out of the tree is no longer reachable
  from a variable; what is done to it is seen by nobody.
\<close>

definition remove_team_names :: "nat \<Rightarrow> xml_vars \<Rightarrow> xml_vars" where
  "remove_team_names params st =
     (case deref_xml params st of
        None \<Rightarrow> st
      | Some pe \<Rightarrow>
          fold (\<lambda>team_name. mutate_xml params (remove_child team_name))
               (map ident (findall_children ''team_name'' pe)) st)"

text \<open>
  The body of the second loop: \<^verbatim>\<open>ET.SubElement(params, "something")\<close> creates an element
  with no attributes, text or tail and appends it to \<open>params\<close>; then its text is set.
\<close>

definition sub_element :: "nat \<Rightarrow> string \<Rightarrow> xml_vars \<Rightarrow> nat \<times> xml_vars" where
  "sub_element parent tg st =
     (let new_elem = next_id st;
          st' = st\<lparr>next_id := Suc (next_id st)\<rparr>
      in (new_elem, mutate_xml parent (append_child (Element new_elem tg [] None None [])) st'))"

definition add_something :: "nat \<Rightarrow> xml_vars \<Rightarrow> xml_vars" where
  "add_something params st =
     (case sub_element params ''something'' st of
        (new_elem, st') \<Rightarrow> mutate_xml new_elem (set_text (Some ''2'')) st')"

text \<open>The body of the third loop.\<close>

definition set_points :: "nat \<Rightarrow> xml_vars \<Rightarrow> xml_vars" where
  "set_points shot_type st = mutate_xml shot_type (set_text (Some ''points'')) st"

text \<open>
  \<^verbatim>\<open>modify_xml\<close>, called with the object \<open>xroot\<close> when \<open>n\<close> is the next fresh identity.  Each
  \<^verbatim>\<open>findall\<close> returns the list of the elements it found before the loop over them starts.
  The result is the caller's tree as it is after the call, and the tree the call returns.
\<close>

definition modify_xml :: "nat \<Rightarrow> nat element \<Rightarrow> nat element \<times> nat element" where
  "modify_xml n xroot =
     (case alloc_element n xroot of
        (copy, n') \<Rightarrow>
          (let st0 = \<lparr>xml_root = xroot, modified_root = copy, next_id = n'\<rparr>;
               st1 = fold remove_team_names
                       (map ident (findall_descendants ''parameters'' (modified_root st0))) st0;
               st2 = fold add_something
                       (map ident (findall_descendants ''parameters'' (modified_root st1))) st1;
               st3 = fold set_points
                       (map ident (findall_descendants ''shot_type'' (modified_root st2))) st2
           in (xml_root st3, modified_root st3)))"

section \<open>Running a transform on a parsed document\<close>

text \<open>
  A parsed document is a tree without identities (\<open>unit json\<close>, \<open>unit element\<close>); loading it
  builds its objects with the identities \<open>0, 1, \<dots>\<close>, and the transform runs on these objects.
\<close>

definition load_json :: "'i json \<Rightarrow> nat json \<times> nat" where
  "load_json doc = alloc_json 0 doc"

definition load_xml :: "'i element \<Rightarrow> nat element \<times> nat" where
  "load_xml doc = alloc_element 0 doc"

definition transform_json :: "'i json \<Rightarrow> nat json \<times> (error + nat json)" where
  "transform_json doc = (case load_json doc of (jd, n) \<Rightarrow> modify_json n jd)"

definition transform_xml :: "'i element \<Rightarrow> nat element \<times> nat element" where
  "transform_xml doc = (case load_xml doc of (xroot, n) \<Rightarrow> modify_xml n xroot)"

text \<open>A value or a tree with its identities forgotten.\<close>

definition erase_json :: "'i json \<Rightarrow> unit json" where
  "erase_json v = map_json (\<lambda>_. ()) v"

definition erase :: "'i element \<Rightarrow> unit element" where
  "erase e = map_element (\<lambda>_. ()) e"


section \<open>Serializers\<close>

subsection \<open>\<^verbatim>\<open>json.dumps(x, indent=2)\<close>\<close>

text \<open>
  The library's encoder with \<^verbatim>\<open>indent=2\<close>: items are separated by a comma and a new line,
  a key from its value by a colon and a space; an empty list is \<open>[]\<close> and an empty dict
  \<open>{}\<close>.  Strings are written in ASCII: a quote and a backslash are escaped, the control
  characters have their short or \<open>\u00XX\<close> escape, and so has every code point outside the
  printable ASCII range.
\<close>

definition hex_digit :: "nat \<Rightarrow> char" where
  "hex_digit d = (''0123456789abcdef'') ! (d mod 16)"

definition escape_char :: "char \<Rightarrow> string" where
  "escape_char c =
     (if c = CHR 0x22 then [CHR 0x5C, CHR 0x22]
      else if c = CHR 0x5C then [CHR 0x5C, CHR 0x5C]
      else if c = CHR 0x0A then [CHR 0x5C, CHR ''n'']
      else if c = CHR 0x0D then [CHR 0x5C, CHR ''r'']
      else if c = CHR 0x09 then [CHR 0x5C, CHR ''t'']
      else if c = CHR 0x08 then [CHR 0x5C, CHR ''b'']
      else if c = CHR 0x0C then [CHR 0x5C, CHR ''f'']
      else if 32 \<le> (of_char c :: nat) \<and> (of_char c :: nat) \<le> 126 then [c]
      else [CHR 0x5C, CHR ''u'', CHR ''0'', CHR ''0'',
            hex_digit (of_char c div 16), hex_digit (of_char c mod 16)])"

definition encode_str :: "string \<Rightarrow> string" where
  "encode_str s = [CHR 0x22] @ concat (map escape_char s) @ [CHR 0x22]"

function int_digits :: "nat \<Rightarrow> string" where
  "int_digits n =
     (if n < 10 then [hex_digit n] else int_digits (n div 10) @ [hex_digit (n mod 10)])"
  by pat_completeness auto
termination
  by (relation "measure id") auto

declare int_digits.simps [simp del]

definition int_repr :: "int \<Rightarrow> string" where
  "int_repr k = (if k < 0 then CHR ''-'' # int_digits (nat (- k)) else int_digits (nat k))"

definition newline_indent :: "nat \<Rightarrow> string" where
  "newline_indent level = CHR 0x0A # replicate (2 * level) CHR '' ''"

fun dumps_level :: "nat \<Rightarrow> 'i json \<Rightarrow> string"
and dumps_list :: "nat \<Rightarrow> 'i json list \<Rightarrow> string"
and dumps_items :: "nat \<Rightarrow> (string \<times> 'i json) list \<Rightarrow> string" where
  "dumps_level level JNull = ''null''"
| "dumps_level level (JBool b) = (if b then ''true'' else ''false'')"
| "dumps_level level (JInt k) = int_repr k"
| "dumps_level level (JFloat r) = r"
| "dumps_level level (JStr s) = encode_str s"
| "dumps_level level (JList _ xs) =
     (if xs = [] then ''[]''
      else ''['' @ newline_indent (Suc level) @ dumps_list (Suc level) xs
           @ newline_indent level @ '']'')"
| "dumps_level level (JDict _ kvs) =
     (if kvs = [] then ''{}''
      else ''{'' @ newline_indent (Suc level) @ dumps_items (Suc level) kvs
           @ newline_indent level @ ''}'')"
| "dumps_list level [] = []"
| "dumps_list level (x # xs) =
     dumps_level level x
     @ (if xs = [] then [] else '','' @ newline_indent level @ dumps_list level xs)"
| "dumps_items level [] = []"
| "dumps_items level (kv # kvs) =
     encode_str (fst kv) @ '': '' @ dumps_level level (snd kv)
     @ (if kvs = [] then [] else '','' @ newline_indent level @ dumps_items level kvs)"

definition json_dumps :: "'i json \<Rightarrow> string" where
  "json_dumps v = dumps_level 0 v"

text \<open>\<^verbatim>\<open>s.split("\n")\<close>, for any separator character.\<close>

fun split_on :: "'a \<Rightarrow> 'a list \<Rightarrow> 'a list list" where
  "split_on d [] = [[]]"
| "split_on d (c # cs) =
     (if c = d then [] # split_on d cs
      else (case split_on d cs of l # ls \<Rightarrow> (c # l) # ls | [] \<Rightarrow> [[c]]))"

subsection \<open>\<^verbatim>\<open>prettify_xml\<close>\<close>

text \<open>
  \<^verbatim>\<open>prettify_xml\<close> composes three library functions, which are parameters of the model:
  \<^verbatim>\<open>ET.tostring\<close> (an element and an encoding to bytes), \<^verbatim>\<open>minidom.parseString\<close> (bytes to
  a DOM document) and \<^verbatim>\<open>toprettyxml\<close> (a DOM document and an indent to text).  Each of them
  returns (\<open>Inr\<close>) or raises (\<open>Inl\<close>); \<^verbatim>\<open>ET.tostring\<close> raises \<open>RecursionError\<close> for an element
  nested very deep.  \<^verbatim>\<open>prettify_xml\<close> has no handler: what a call raises leaves the function.
\<close>

record ('b, 'd) xml_lib =
  tostring :: "nat element \<Rightarrow> string \<Rightarrow> error + 'b"
  parseString :: "'b \<Rightarrow> error + 'd"
  toprettyxml :: "'d \<Rightarrow> string \<Rightarrow> error + string"

definition prettify_xml :: "('b, 'd) xml_lib \<Rightarrow> nat element \<Rightarrow> error + string" where
  "prettify_xml lib elem =
     (case tostring lib elem ''utf-8'' of
        Inl e \<Rightarrow> Inl e
      | Inr rough_string \<Rightarrow>
          (case parseString lib rough_string of
             Inl e \<Rightarrow> Inl e
           | Inr reparsed \<Rightarrow> toprettyxml lib reparsed ''  ''))"

section \<open>The difflib library: \<^verbatim>\<open>Differ().compare\<close>\<close>

text \<open>
  \<^verbatim>\<open>generate_diff\<close> calls \<^verbatim>\<open>Differ().compare\<close> of the standard library.  The model follows
  the library's code for a \<^verbatim>\<open>SequenceMatcher\<close> without a junk predicate and with the
  automatic junk heuristic on, which is how \<^verbatim>\<open>Differ()\<close> builds its matchers.  Similarity
  ratios are exact rationals.
\<close>

subsection \<open>SequenceMatcher\<close>

text \<open>
  \<open>chain_b b x\<close> is \<^verbatim>\<open>b2j.get(x, [])\<close>: the indices of \<open>x\<close> in \<open>b\<close>, in increasing order,
  and none for a popular element (more than \<open>1 + n div 100\<close> occurrences when \<open>b\<close> has
  at least 200 elements).
\<close>

definition chain_b :: "'a list \<Rightarrow> 'a \<Rightarrow> nat list" where
  "chain_b b x =
     (let idxs = filter (\<lambda>j. b ! j = x) [0..<length b]; n = length b
      in if n \<ge> 200 \<and> length idxs > n div 100 + 1 then [] else idxs)"

text \<open>
  \<^verbatim>\<open>find_longest_match\<close>.  \<open>flm_inner\<close> is the loop over the indices \<open>j\<close> of \<open>a[i]\<close> in
  \<open>b\<close> (\<open>j2len\<close> holds the lengths of the matches ending at \<open>a[i-1]\<close>, the state is the best
  match so far and \<open>newj2len\<close>), \<open>flm_step\<close> one round of the loop over \<open>i\<close>;
  \<open>extend_left\<close> and \<open>extend_right\<close> are the two loops that extend the best match.
\<close>

type_synonym match = "nat \<times> nat \<times> nat"

definition prev_len :: "(nat \<rightharpoonup> nat) \<Rightarrow> nat \<Rightarrow> nat" where
  "prev_len j2len j =
     (case j of 0 \<Rightarrow> 0 | Suc j' \<Rightarrow> (case j2len j' of None \<Rightarrow> 0 | Some v \<Rightarrow> v))"

fun flm_inner :: "nat \<Rightarrow> nat \<Rightarrow> nat \<Rightarrow> (nat \<rightharpoonup> nat) \<Rightarrow> nat list
                   \<Rightarrow> match \<times> (nat \<rightharpoonup> nat) \<Rightarrow> match \<times> (nat \<rightharpoonup> nat)" where
  "flm_inner i blo bhi j2len [] st = st"
| "flm_inner i blo bhi j2len (j # js) st =
     (if j < blo then flm_inner i blo bhi j2len js st
      else if j \<ge> bhi then st
      else
        (let k = Suc (prev_len j2len j);
             newj2len = (snd st)(j \<mapsto> k);
             best = (case fst st of (besti, bestj, bestsize) \<Rightarrow>
                       if k > bestsize then (Suc i - k, Suc j - k, k)
                       else (besti, bestj, bestsize))
         in flm_inner i blo bhi j2len js (best, newj2len)))"

definition flm_step :: "'a list \<Rightarrow> 'a list \<Rightarrow> nat \<Rightarrow> nat \<Rightarrow> nat
                         \<Rightarrow> match \<times> (nat \<rightharpoonup> nat) \<Rightarrow> match \<times> (nat \<rightharpoonup> nat)" where
  "flm_step a b blo bhi i st =
     flm_inner i blo bhi (snd st) (chain_b b (a ! i)) (fst st, Map.empty)"

function extend_left :: "'a list \<Rightarrow> 'a list \<Rightarrow> nat \<Rightarrow> nat \<Rightarrow> match \<Rightarrow> match" where
  "extend_left a b alo blo (besti, bestj, bestsize) =
     (if besti > alo \<and> bestj > blo \<and> a ! (besti - 1) = b ! (bestj - 1)
      then extend_left a b alo blo (besti - 1, bestj - 1, bestsize + 1)
      else (besti, bestj, bestsize))"
  by pat_completeness auto
termination
  by (relation "measure (\<lambda>(a, b, alo, blo, besti, bestj, bestsize). besti)") auto

declare extend_left.simps [simp del]

function extend_right :: "'a list \<Rightarrow> 'a list \<Rightarrow> nat \<Rightarrow> nat \<Rightarrow> match \<Rightarrow> match" where
  "extend_right a b ahi bhi (besti, bestj, bestsize) =
     (if besti + bestsize < ahi \<and> bestj + bestsize < bhi
         \<and> a ! (besti + bestsize) = b ! (bestj + bestsize)
      then extend_right a b ahi bhi (besti, bestj, bestsize + 1)
      else (besti, bestj, bestsize))"
  by pat_completeness auto
termination
  by (relation "measure (\<lambda>(a, b, ahi, bhi, besti, bestj, bestsize). ahi - (besti + bestsize))") auto

declare extend_right.simps [simp del]

definition find_longest_match :: "'a list \<Rightarrow> 'a list \<Rightarrow> nat \<Rightarrow> nat \<Rightarrow> nat \<Rightarrow> nat \<Rightarrow> match" where
  "find_longest_match a b alo ahi blo bhi =
     (let best = fst (fold (flm_step a b blo bhi) [alo..<ahi] ((alo, blo, 0), Map.empty))
      in extend_right a b ahi bhi (extend_left a b alo blo best))"







definition best_ok :: "nat \<Rightarrow> nat \<Rightarrow> nat \<Rightarrow> nat \<Rightarrow> match \<Rightarrow> bool" where
  "best_ok alo blo bhi i m =
     (case m of (bi, bj, bs) \<Rightarrow>
        alo \<le> bi \<and> blo \<le> bj \<and>
        (if bs > 0 then bi + bs \<le> i \<and> bj + bs \<le> bhi else bi = alo \<and> bj = blo))"

definition j2len_ok :: "nat \<Rightarrow> nat \<Rightarrow> nat \<Rightarrow> nat \<Rightarrow> (nat \<rightharpoonup> nat) \<Rightarrow> bool" where
  "j2len_ok alo blo bhi i m =
     (\<forall>j k. m j = Some k \<longrightarrow> blo \<le> j \<and> j < bhi \<and> 1 \<le> k \<and> k + blo \<le> j + 1 \<and> k + alo \<le> i)"

lemma flm_inner_ok:
  assumes "j2len_ok alo blo bhi i j2len" "alo \<le> i"
      and "best_ok alo blo bhi (Suc i) (fst st)" "j2len_ok alo blo bhi (Suc i) (snd st)"
  shows "best_ok alo blo bhi (Suc i) (fst (flm_inner i blo bhi j2len js st))
         \<and> j2len_ok alo blo bhi (Suc i) (snd (flm_inner i blo bhi j2len js st))"
  using assms
proof (induction js arbitrary: st)
  case Nil
  then show ?case by simp
next
  case (Cons j js)
  show ?case
  proof (cases "j < blo")
    case True
    then show ?thesis using Cons by simp
  next
    case False
    note nlt = this
    show ?thesis
    proof (cases "j \<ge> bhi")
      case True
      then show ?thesis using nlt Cons by simp
    next
      case False
      let ?k = "Suc (prev_len j2len j)"
      let ?st' = "((case fst st of (besti, bestj, bestsize) \<Rightarrow>
                       if ?k > bestsize then (Suc i - ?k, Suc j - ?k, ?k)
                       else (besti, bestj, bestsize)), (snd st)(j \<mapsto> ?k))"
      have k2: "?k + blo \<le> j + 1 \<and> ?k + alo \<le> Suc i"
        using Cons.prems(1,2) nlt
        by (auto simp: prev_len_def j2len_ok_def split: nat.splits option.splits)
      have b: "best_ok alo blo bhi (Suc i) (fst ?st')"
        using Cons.prems(3) k2 False nlt
        by (auto simp: best_ok_def split: prod.splits if_splits)
      have m: "j2len_ok alo blo bhi (Suc i) (snd ?st')"
        using Cons.prems(4) k2 False nlt
        by (auto simp: j2len_ok_def)
      have "flm_inner i blo bhi j2len (j # js) st = flm_inner i blo bhi j2len js ?st'"
        using False nlt by (simp add: Let_def)
      then show ?thesis using Cons.IH[OF Cons.prems(1,2) b m] by simp
    qed
  qed
qed

lemma best_ok_mono: "best_ok alo blo bhi i m \<Longrightarrow> i \<le> i' \<Longrightarrow> best_ok alo blo bhi i' m"
  by (auto simp: best_ok_def split: prod.splits if_splits)

lemma flm_step_ok:
  assumes "best_ok alo blo bhi i (fst st)" "j2len_ok alo blo bhi i (snd st)" "alo \<le> i"
  shows "best_ok alo blo bhi (Suc i) (fst (flm_step a b blo bhi i st))
         \<and> j2len_ok alo blo bhi (Suc i) (snd (flm_step a b blo bhi i st))"
  unfolding flm_step_def
  apply (rule flm_inner_ok[OF assms(2) assms(3)])
   apply (simp add: best_ok_mono[OF assms(1)])
  apply (simp add: j2len_ok_def)
  done

lemma flm_fold_ok:
  "best_ok alo blo bhi (alo + n)
      (fst (fold (flm_step a b blo bhi) [alo..<alo + n] ((alo, blo, 0), Map.empty)))
   \<and> j2len_ok alo blo bhi (alo + n)
      (snd (fold (flm_step a b blo bhi) [alo..<alo + n] ((alo, blo, 0), Map.empty)))"
proof (induction n)
  case 0
  show ?case by (simp add: best_ok_def j2len_ok_def)
next
  case (Suc n)
  let ?st = "fold (flm_step a b blo bhi) [alo..<alo + n] ((alo, blo, 0), Map.empty)"
  have up: "[alo..<alo + Suc n] = [alo..<alo + n] @ [alo + n]"
    by simp
  have "best_ok alo blo bhi (Suc (alo + n)) (fst (flm_step a b blo bhi (alo + n) ?st))
         \<and> j2len_ok alo blo bhi (Suc (alo + n)) (snd (flm_step a b blo bhi (alo + n) ?st))"
    using Suc.IH by (intro flm_step_ok) simp_all
  then show ?case
    unfolding up fold_append by simp
qed

lemma extend_left_ok:
  "best_ok alo blo bhi ahi m \<Longrightarrow> best_ok alo blo bhi ahi (extend_left a b alo blo m)"
proof (induction a b alo blo m rule: extend_left.induct)
  case (1 a b alo blo besti bestj bestsize)
  show ?case
  proof (cases "besti > alo \<and> bestj > blo \<and> a ! (besti - 1) = b ! (bestj - 1)")
    case True
    have "best_ok alo blo bhi ahi (besti - 1, bestj - 1, bestsize + 1)"
      using "1.prems" True by (auto simp: best_ok_def split: if_splits)
    from "1.IH"[OF True this] True show ?thesis
      by (subst extend_left.simps) simp
  next
    case False
    then show ?thesis using "1.prems"
      by (subst extend_left.simps) auto
  qed
qed

definition match_ok :: "nat \<Rightarrow> nat \<Rightarrow> nat \<Rightarrow> nat \<Rightarrow> match \<Rightarrow> bool" where
  "match_ok alo ahi blo bhi m =
     (case m of (i, j, k) \<Rightarrow> alo \<le> i \<and> blo \<le> j \<and> (k > 0 \<longrightarrow> i + k \<le> ahi \<and> j + k \<le> bhi))"

lemma extend_right_ok:
  "match_ok alo ahi blo bhi m \<Longrightarrow> match_ok alo ahi blo bhi (extend_right a b ahi bhi m)"
proof (induction a b ahi bhi m rule: extend_right.induct)
  case (1 a b ahi bhi besti bestj bestsize)
  show ?case
  proof (cases "besti + bestsize < ahi \<and> bestj + bestsize < bhi
         \<and> a ! (besti + bestsize) = b ! (bestj + bestsize)")
    case True
    have "match_ok alo ahi blo bhi (besti, bestj, bestsize + 1)"
      using "1.prems" True by (auto simp: match_ok_def)
    from "1.IH"[OF True this] True show ?thesis
      by (subst extend_right.simps) simp
  next
    case False
    then show ?thesis using "1.prems"
      by (subst extend_right.simps) auto
  qed
qed

lemma find_longest_match_ok:
  "match_ok alo ahi blo bhi (find_longest_match a b alo ahi blo bhi)"
proof -
  let ?st = "fold (flm_step a b blo bhi) [alo..<ahi] ((alo, blo, 0), Map.empty)"
  have b: "best_ok alo blo bhi (max alo ahi) (fst ?st)"
  proof (cases "alo \<le> ahi")
    case True
    from flm_fold_ok[of alo blo bhi "ahi - alo" a b] True show ?thesis
      by (simp add: max_def)
  next
    case False
    then show ?thesis by (simp add: best_ok_def)
  qed
  have "best_ok alo blo bhi (max alo ahi) (extend_left a b alo blo (fst ?st))"
    by (rule extend_left_ok[OF b])
  then have "match_ok alo ahi blo bhi (extend_left a b alo blo (fst ?st))"
    by (auto simp: best_ok_def match_ok_def max_def split: prod.splits if_splits)
  then show ?thesis
    unfolding find_longest_match_def Let_def by (rule extend_right_ok)
qed


type_synonym block = "nat \<times> nat \<times> nat \<times> nat"

definition block_weight :: "block \<Rightarrow> nat" where
  "block_weight q = (case q of (alo, ahi, blo, bhi) \<Rightarrow> 2 * (ahi - alo) + 1)"

function gmb_loop :: "'a list \<Rightarrow> 'a list \<Rightarrow> block list \<Rightarrow> match list \<Rightarrow> match list" where
  "gmb_loop a b [] matching_blocks = matching_blocks"
| "gmb_loop a b ((alo, ahi, blo, bhi) # queue) matching_blocks =
     (case find_longest_match a b alo ahi blo bhi of (i, j, k) \<Rightarrow>
        if k \<noteq> 0 then
          (let queue1 = (if alo < i \<and> blo < j then (alo, i, blo, j) # queue else queue);
               queue2 = (if i + k < ahi \<and> j + k < bhi then (i + k, ahi, j + k, bhi) # queue1
                         else queue1)
           in gmb_loop a b queue2 (matching_blocks @ [(i, j, k)]))
        else gmb_loop a b queue matching_blocks)"
  by pat_completeness auto
termination
  apply (relation "measure (\<lambda>(a, b, queue, mbs). sum_list (map block_weight queue))")
    apply simp
  subgoal for a b alo ahi blo bhi queue mbs x i y j k
    using find_longest_match_ok[of alo ahi blo bhi a b]
    by (auto simp: match_ok_def block_weight_def)
  subgoal by (simp add: block_weight_def)
  done

declare gmb_loop.simps [simp del]

fun collapse_blocks :: "match \<Rightarrow> match list \<Rightarrow> match list \<Rightarrow> match list" where
  "collapse_blocks (i1, j1, k1) non_adjacent [] =
     (if k1 \<noteq> 0 then non_adjacent @ [(i1, j1, k1)] else non_adjacent)"
| "collapse_blocks (i1, j1, k1) non_adjacent ((i2, j2, k2) # rest) =
     (if i1 + k1 = i2 \<and> j1 + k1 = j2 then collapse_blocks (i1, j1, k1 + k2) non_adjacent rest
      else collapse_blocks (i2, j2, k2)
             (if k1 \<noteq> 0 then non_adjacent @ [(i1, j1, k1)] else non_adjacent) rest)"

definition get_matching_blocks :: "'a list \<Rightarrow> 'a list \<Rightarrow> match list" where
  "get_matching_blocks a b =
     (let la = length a; lb = length b;
          matching_blocks = sort (gmb_loop a b [(0, la, 0, lb)] [])
      in collapse_blocks (0, 0, 0) [] matching_blocks @ [(la, lb, 0)])"

datatype optag = Replace | Delete | Insert | Equal

type_synonym opcode = "optag \<times> nat \<times> nat \<times> nat \<times> nat"

fun opcodes_loop :: "nat \<Rightarrow> nat \<Rightarrow> match list \<Rightarrow> opcode list" where
  "opcodes_loop i j [] = []"
| "opcodes_loop i j ((ai, bj, sz) # rest) =
     (if i < ai \<and> j < bj then [(Replace, i, ai, j, bj)]
      else if i < ai then [(Delete, i, ai, j, bj)]
      else if j < bj then [(Insert, i, ai, j, bj)]
      else [])
     @ (if sz \<noteq> 0 then [(Equal, ai, ai + sz, bj, bj + sz)] else [])
     @ opcodes_loop (ai + sz) (bj + sz) rest"

definition get_opcodes :: "'a list \<Rightarrow> 'a list \<Rightarrow> opcode list" where
  "get_opcodes a b = opcodes_loop 0 0 (get_matching_blocks a b)"


definition calculate_ratio :: "nat \<Rightarrow> nat \<Rightarrow> rat" where
  "calculate_ratio matches len = (if len \<noteq> 0 then 2 * of_nat matches / of_nat len else 1)"

definition ratio :: "'a list \<Rightarrow> 'a list \<Rightarrow> rat" where
  "ratio a b =
     calculate_ratio (sum_list (map (\<lambda>m. snd (snd m)) (get_matching_blocks a b)))
       (length a + length b)"

definition quick_ratio :: "'a list \<Rightarrow> 'a list \<Rightarrow> rat" where
  "quick_ratio a b =
     (let step = (\<lambda>elt (avail, matches).
            (let numb = (case avail elt of Some n \<Rightarrow> n | None \<Rightarrow> int (count_list b elt))
             in (avail(elt \<mapsto> numb - 1), if numb > 0 then matches + 1 else matches)))
      in calculate_ratio (snd (fold step a (Map.empty, 0 :: nat))) (length a + length b))"

definition real_quick_ratio :: "'a list \<Rightarrow> 'a list \<Rightarrow> rat" where
  "real_quick_ratio a b = calculate_ratio (min (length a) (length b)) (length a + length b)"

subsection \<open>Differ\<close>

definition dump :: "char \<Rightarrow> string list \<Rightarrow> nat \<Rightarrow> nat \<Rightarrow> string list" where
  "dump tg x lo hi = map (\<lambda>i. tg # CHR '' '' # x ! i) [lo..<hi]"

definition plain_replace ::
  "string list \<Rightarrow> nat \<Rightarrow> nat \<Rightarrow> string list \<Rightarrow> nat \<Rightarrow> nat \<Rightarrow> string list" where
  "plain_replace a alo ahi b blo bhi =
     (if bhi - blo < ahi - alo then dump CHR ''+'' b blo bhi @ dump CHR ''-'' a alo ahi
      else dump CHR ''-'' a alo ahi @ dump CHR ''+'' b blo bhi)"

record search =
  best_ratio :: rat
  best :: "(nat \<times> nat) option"
  eq :: "(nat \<times> nat) option"

definition search_pair :: "string list \<Rightarrow> string list \<Rightarrow> nat \<Rightarrow> nat \<Rightarrow> search \<Rightarrow> search" where
  "search_pair a b j i st =
     (let ai = a ! i; bj = b ! j in
      if ai = bj then (if eq st = None then st\<lparr>eq := Some (i, j)\<rparr> else st)
      else if real_quick_ratio ai bj > best_ratio st \<and> quick_ratio ai bj > best_ratio st
              \<and> ratio ai bj > best_ratio st
           then st\<lparr>best_ratio := ratio ai bj, best := Some (i, j)\<rparr>
           else st)"

definition search_pairs ::
  "string list \<Rightarrow> nat \<Rightarrow> nat \<Rightarrow> string list \<Rightarrow> nat \<Rightarrow> nat \<Rightarrow> search" where
  "search_pairs a alo ahi b blo bhi =
     fold (\<lambda>j. fold (search_pair a b j) [alo..<ahi]) [blo..<bhi]
       \<lparr>best_ratio = 74 / 100, best = None, eq = None\<rparr>"

definition keep_original_ws :: "string \<Rightarrow> string \<Rightarrow> string" where
  "keep_original_ws s tag_s =
     map (\<lambda>(c, tag_c). if tag_c = CHR '' '' \<and> isspace c then c else tag_c) (zip s tag_s)"

definition qformat :: "string \<Rightarrow> string \<Rightarrow> string \<Rightarrow> string \<Rightarrow> string list" where
  "qformat aline bline atags0 btags0 =
     (let atags = rstrip (keep_original_ws aline atags0);
          btags = rstrip (keep_original_ws bline btags0)
      in [''- '' @ aline]
         @ (if atags \<noteq> [] then [''? '' @ atags @ [CHR 0x0A]] else [])
         @ [''+ '' @ bline]
         @ (if btags \<noteq> [] then [''? '' @ btags @ [CHR 0x0A]] else []))"

definition tags_step :: "opcode \<Rightarrow> string \<times> string \<Rightarrow> string \<times> string" where
  "tags_step oc tags =
     (case oc of (tg, ai1, ai2, bj1, bj2) \<Rightarrow>
        (let la = ai2 - ai1; lb = bj2 - bj1; atags = fst tags; btags = snd tags in
         case tg of
           Replace \<Rightarrow> (atags @ replicate la CHR ''^'', btags @ replicate lb CHR ''^'')
         | Delete \<Rightarrow> (atags @ replicate la CHR ''-'', btags)
         | Insert \<Rightarrow> (atags, btags @ replicate lb CHR ''+'')
         | Equal \<Rightarrow> (atags @ replicate la CHR '' '', btags @ replicate lb CHR '' '')))"

definition intraline :: "string \<Rightarrow> string \<Rightarrow> string list" where
  "intraline aelt belt =
     (case fold tags_step (get_opcodes aelt belt) ([], []) of
        (atags, btags) \<Rightarrow> qformat aelt belt atags btags)"

definition in_block :: "nat \<Rightarrow> nat \<Rightarrow> nat \<Rightarrow> nat \<Rightarrow> (nat \<times> nat) option \<Rightarrow> bool" where
  "in_block alo ahi blo bhi r =
     (case r of None \<Rightarrow> True | Some (p, q) \<Rightarrow> alo \<le> p \<and> p < ahi \<and> blo \<le> q \<and> q < bhi)"

lemma search_pair_in_block:
  assumes "alo \<le> i" "i < ahi" "blo \<le> j" "j < bhi"
    and "in_block alo ahi blo bhi (best st)" "in_block alo ahi blo bhi (eq st)"
  shows "in_block alo ahi blo bhi (best (search_pair a b j i st))
       \<and> in_block alo ahi blo bhi (eq (search_pair a b j i st))"
  using assms by (auto simp: search_pair_def Let_def in_block_def)

lemma search_row_in_block:
  assumes "set is \<subseteq> {alo..<ahi}" "blo \<le> j" "j < bhi"
    and "in_block alo ahi blo bhi (best st)" "in_block alo ahi blo bhi (eq st)"
  shows "in_block alo ahi blo bhi (best (fold (search_pair a b j) is st))
       \<and> in_block alo ahi blo bhi (eq (fold (search_pair a b j) is st))"
  using assms
proof (induction "is" arbitrary: st)
  case Nil
  then show ?case by simp
next
  case (Cons i "is")
  have "in_block alo ahi blo bhi (best (search_pair a b j i st))
       \<and> in_block alo ahi blo bhi (eq (search_pair a b j i st))"
    using Cons.prems by (intro search_pair_in_block) auto
  then show ?case using Cons.IH[of "search_pair a b j i st"] Cons.prems by simp
qed

lemma search_rows_in_block:
  assumes "set js \<subseteq> {blo..<bhi}"
    and "in_block alo ahi blo bhi (best st)" "in_block alo ahi blo bhi (eq st)"
  shows "in_block alo ahi blo bhi (best (fold (\<lambda>j. fold (search_pair a b j) [alo..<ahi]) js st))
       \<and> in_block alo ahi blo bhi (eq (fold (\<lambda>j. fold (search_pair a b j) [alo..<ahi]) js st))"
  using assms
proof (induction js arbitrary: st)
  case Nil
  then show ?case by simp
next
  case (Cons j js)
  have "in_block alo ahi blo bhi (best (fold (search_pair a b j) [alo..<ahi] st))
       \<and> in_block alo ahi blo bhi (eq (fold (search_pair a b j) [alo..<ahi] st))"
    using Cons.prems by (intro search_row_in_block) auto
  then show ?case using Cons.IH[of "fold (search_pair a b j) [alo..<ahi] st"] Cons.prems by simp
qed

lemma search_pairs_in_block:
  "in_block alo ahi blo bhi (best (search_pairs a alo ahi b blo bhi))
   \<and> in_block alo ahi blo bhi (eq (search_pairs a alo ahi b blo bhi))"
  unfolding search_pairs_def
  by (rule search_rows_in_block) (simp_all add: in_block_def)

function fancy_replace ::
  "string list \<Rightarrow> nat \<Rightarrow> nat \<Rightarrow> string list \<Rightarrow> nat \<Rightarrow> nat \<Rightarrow> string list"
and fancy_helper ::
  "string list \<Rightarrow> nat \<Rightarrow> nat \<Rightarrow> string list \<Rightarrow> nat \<Rightarrow> nat \<Rightarrow> string list" where
  "fancy_replace a alo ahi b blo bhi =
     (let st = search_pairs a alo ahi b blo bhi in
      if best_ratio st < 75 / 100 then
        (case eq st of
           None \<Rightarrow> plain_replace a alo ahi b blo bhi
         | Some (eqi, eqj) \<Rightarrow>
             fancy_helper a alo eqi b blo eqj
             @ [''  '' @ a ! eqi]
             @ fancy_helper a (eqi + 1) ahi b (eqj + 1) bhi)
      else
        (case best st of
           None \<Rightarrow> []
         | Some (best_i, best_j) \<Rightarrow>
             fancy_helper a alo best_i b blo best_j
             @ intraline (a ! best_i) (b ! best_j)
             @ fancy_helper a (best_i + 1) ahi b (best_j + 1) bhi))"
| "fancy_helper a alo ahi b blo bhi =
     (if alo < ahi then
        (if blo < bhi then fancy_replace a alo ahi b blo bhi else dump CHR ''-'' a alo ahi)
      else if blo < bhi then dump CHR ''+'' b blo bhi
      else [])"
  by pat_completeness auto
termination
  apply (relation "measure (\<lambda>x. case x of
            Inl (a, alo, ahi, b, blo, bhi) \<Rightarrow> 2 * ((ahi - alo) + (bhi - blo))
          | Inr (a, alo, ahi, b, blo, bhi) \<Rightarrow> 2 * ((ahi - alo) + (bhi - blo)) + 1)")
      apply simp
  subgoal for a alo ahi b blo bhi st p eqi eqj
    using search_pairs_in_block[of alo ahi blo bhi a b]
    by (auto simp: in_block_def)
  subgoal for a alo ahi b blo bhi st p eqi eqj
    using search_pairs_in_block[of alo ahi blo bhi a b]
    by (auto simp: in_block_def)
  subgoal for a alo ahi b blo bhi st p best_i best_j
    using search_pairs_in_block[of alo ahi blo bhi a b]
    by (auto simp: in_block_def)
  subgoal for a alo ahi b blo bhi st p best_i best_j
    using search_pairs_in_block[of alo ahi blo bhi a b]
    by (auto simp: in_block_def)
  subgoal by simp
  done

declare fancy_replace.simps [simp del] fancy_helper.simps [simp del]

definition compare :: "string list \<Rightarrow> string list \<Rightarrow> string list" where
  "compare a b =
     concat (map (\<lambda>oc. case oc of (tg, alo, ahi, blo, bhi) \<Rightarrow>
                (case tg of
                   Replace \<Rightarrow> fancy_replace a alo ahi b blo bhi
                 | Delete \<Rightarrow> dump CHR ''-'' a alo ahi
                 | Insert \<Rightarrow> dump CHR ''+'' b blo bhi
                 | Equal \<Rightarrow> dump CHR '' '' a alo ahi))
             (get_opcodes a b))"


section \<open>The diff of two documents\<close>

text \<open>
  What \<^verbatim>\<open>generate_diff\<close> is called with: a JSON value (\<^verbatim>\<open>None\<close> is the value \<open>JNull\<close>) or an
  element.  \<open>truthy\<close> is Python's truth value of the object: \<^verbatim>\<open>None\<close>, \<^verbatim>\<open>False\<close>, zero, the
  empty string, the empty list and the empty dict are false, and so is an element without
  children.
\<close>

datatype document = Json "nat json" | Xml "nat element"

fun truthy :: "document \<Rightarrow> bool" where
  "truthy (Json JNull) = False"
| "truthy (Json (JBool b)) = b"
| "truthy (Json (JInt k)) = (k \<noteq> 0)"
| "truthy (Json (JFloat r)) = (r \<noteq> ''0.0'' \<and> r \<noteq> ''-0.0'')"
| "truthy (Json (JStr s)) = (s \<noteq> [])"
| "truthy (Json (JList _ xs)) = (xs \<noteq> [])"
| "truthy (Json (JDict _ kvs)) = (kvs \<noteq> [])"
| "truthy (Xml e) = (children e \<noteq> [])"

text \<open>
  \<^verbatim>\<open>generate_diff\<close>.  \<^verbatim>\<open>json.dumps\<close> raises \<open>TypeError\<close> for an element, and
  \<^verbatim>\<open>ET.tostring\<close> raises \<open>AttributeError\<close> for a JSON value.  There is no handler: an
  exception of \<^verbatim>\<open>prettify_xml\<close> leaves the function, for the original first.
\<close>

definition generate_diff ::
  "('b, 'd) xml_lib \<Rightarrow> document \<Rightarrow> document \<Rightarrow> string \<Rightarrow> error + string list" where
  "generate_diff lib original modified file_type =
     (if \<not> truthy original \<or> \<not> truthy modified then Inr []
      else if file_type = ''json'' then
        (case (original, modified) of
           (Json orig, Json modi) \<Rightarrow>
             (let original_str = split_on CHR 0x0A (json_dumps orig);
                  modified_str = split_on CHR 0x0A (json_dumps modi)
              in Inr (compare original_str modified_str))
         | _ \<Rightarrow> Inl TypeError)
      else
        (case original of
           Xml orig \<Rightarrow>
             (case prettify_xml lib orig of
                Inl e \<Rightarrow> Inl e
              | Inr original_text \<Rightarrow>
                  (case modified of
                     Xml modi \<Rightarrow>
                       (case prettify_xml lib modi of
                          Inl e \<Rightarrow> Inl e
                        | Inr modified_text \<Rightarrow>
                            (let original_str = split_on CHR 0x0A original_text;
                                 modified_str = split_on CHR 0x0A modified_text
                             in Inr (compare original_str modified_str)))
                   | Json _ \<Rightarrow> Inl AttributeError))
         | Json _ \<Rightarrow> Inl AttributeError))"

text \<open>\<^verbatim>\<open>format_diff_html\<close>: one \<open>div\<close> per line, none for a hint line.\<close>

definition format_line :: "string \<Rightarrow> string" where
  "format_line line =
     (if startswith line ''+'' then
        ''<div style='' @ [CHR 0x22] @ ''background-color: #a8ffa8'' @ [CHR 0x22] @ ''>''
        @ line @ ''</div>''
      else if startswith line ''-'' then
        ''<div style='' @ [CHR 0x22] @ ''background-color: #ffb3b3'' @ [CHR 0x22] @ ''>''
        @ line @ ''</div>''
      else if startswith line ''?'' then []
      else ''<div>'' @ line @ ''</div>'')"

definition format_diff_html :: "string list \<Rightarrow> string" where
  "format_diff_html diff_lines = concat (map format_line diff_lines)"


section \<open>Properties of format detection\<close>

lemma startswith_json_not_xml:
  "startswith s ''{'' \<or> startswith s ''['' \<Longrightarrow> \<not> (startswith s ''<?xml'' \<or> startswith s ''<'')"
  by (cases s) (auto simp: startswith_def)

lemma strip_unchanged:
  assumes "s \<noteq> []" "\<not> isspace (hd s)" "\<not> isspace (last s)"
  shows "strip s = s"
proof -
  have l: "lstrip s = s" using assms(1,2) by (cases s) (simp_all add: lstrip_def)
  have "rev s \<noteq> []" "\<not> isspace (hd (rev s))" using assms(1,3) by (simp_all add: hd_rev)
  then have "dropWhile isspace (rev s) = rev s" by (cases "rev s") simp_all
  then show ?thesis by (simp add: strip_def rstrip_def l)
qed

subsection \<open>Exceptions that are not caught\<close>

text \<open>
  Two texts that start with \<open>[\<close>: a hundred thousand opening brackets, and the list of one
  integer of 4301 digits.  On the first \<^verbatim>\<open>json.loads\<close> raises \<open>RecursionError\<close>; on the second
  it raises a \<open>ValueError\<close> that is not a \<^verbatim>\<open>json.JSONDecodeError\<close>, with the message below.
  \<open>loads_on_examples\<close> is \<^verbatim>\<open>json.loads\<close> on these two texts and \<open>fromstring_on_examples\<close> is
  \<^verbatim>\<open>ET.fromstring\<close> on them (neither is well-formed XML); the examples call the parsers on no
  other text.
\<close>

definition deep_nesting_doc :: string where
  "deep_nesting_doc = replicate 100000 CHR ''[''"

definition long_integer_doc :: string where
  "long_integer_doc = ''['' @ replicate 4301 CHR ''1'' @ '']''"

definition int_limit_msg :: string where
  "int_limit_msg = ''Exceeds the limit (4300 digits) for integer string conversion: value has 4301 digits; use sys.set_int_max_str_digits() to increase the limit''"

definition loads_on_examples :: "string \<Rightarrow> error + unit" where
  "loads_on_examples content =
     (if content = deep_nesting_doc then Inl RecursionError
      else if content = long_integer_doc then Inl (ValueError int_limit_msg)
      else Inl JSONDecodeError)"

definition fromstring_on_examples :: "string \<Rightarrow> error + unit" where
  "fromstring_on_examples content = Inl ParseError"

lemma strip_deep_nesting_doc: "strip deep_nesting_doc = deep_nesting_doc"
  by (rule strip_unchanged) (simp_all add: deep_nesting_doc_def isspace_def)

lemma strip_long_integer_doc: "strip long_integer_doc = long_integer_doc"
  by (rule strip_unchanged) (simp_all add: long_integer_doc_def isspace_def)

lemma long_integer_doc_not_deep: "long_integer_doc \<noteq> deep_nesting_doc"
proof
  assume "long_integer_doc = deep_nesting_doc"
  then have "length long_integer_doc = length deep_nesting_doc" by simp
  then show False by (simp add: long_integer_doc_def deep_nesting_doc_def)
qed

lemma startswith_examples:
  "startswith deep_nesting_doc ''[''" "startswith long_integer_doc ''[''"
  by (simp_all add: startswith_def deep_nesting_doc_def long_integer_doc_def)

text \<open>
  Neither text is accepted as JSON or as XML, and \<^verbatim>\<open>detect_file_type\<close> raises what the
  parser raised, which is not the unsupported-format error.
\<close>

theorem detect_file_type_raises_other_errors:
  "\<not> json_accepts loads_on_examples deep_nesting_doc
   \<and> \<not> xml_accepts fromstring_on_examples deep_nesting_doc
   \<and> detect_file_type loads_on_examples fromstring_on_examples deep_nesting_doc
       = Inl RecursionError
   \<and> \<not> json_accepts loads_on_examples long_integer_doc
   \<and> \<not> xml_accepts fromstring_on_examples long_integer_doc
   \<and> detect_file_type loads_on_examples fromstring_on_examples long_integer_doc
       = Inl (ValueError int_limit_msg)
   \<and> int_limit_msg \<noteq> unsupported_msg"
  using long_integer_doc_not_deep
  by (simp add: json_accepts_def xml_accepts_def detect_file_type_def Let_def
        strip_deep_nesting_doc strip_long_integer_doc startswith_examples
        loads_on_examples_def fromstring_on_examples_def
        int_limit_msg_def unsupported_msg_def)

text \<open>
  C6, amended.  When no parser that \<^verbatim>\<open>detect_file_type\<close> calls raises an exception other
  than its decode error, \<^verbatim>\<open>detect_file_type\<close> raises exactly when the text is accepted
  neither as JSON (prefix \<open>{\<close> or \<open>[\<close> after stripping, and a successful strict JSON parse)
  nor as XML (prefix \<open><?xml\<close> or \<open><\<close>, and a successful strict XML parse); the error is then
  the unsupported-format \<open>ValueError\<close>.  Otherwise it returns the tag of the format that
  accepts the text.  An exception of another kind that a parser raises leaves
  \<^verbatim>\<open>detect_file_type\<close> as it is.
\<close>

theorem detect_file_type_unsupported_iff_decode_errors:
  "(other_exception json_loads fromstring content = None \<longrightarrow>
      ((\<exists>e. detect_file_type json_loads fromstring content = Inl e)
         = (\<not> json_accepts json_loads content \<and> \<not> xml_accepts fromstring content))
      \<and> (\<forall>e. detect_file_type json_loads fromstring content = Inl e
             \<longrightarrow> e = ValueError unsupported_msg))
   \<and> (json_accepts json_loads content
          \<longrightarrow> detect_file_type json_loads fromstring content = Inr ''json'')
   \<and> (xml_accepts fromstring content
          \<longrightarrow> detect_file_type json_loads fromstring content = Inr ''xml'')
   \<and> (\<forall>e. other_exception json_loads fromstring content = Some e
          \<longrightarrow> detect_file_type json_loads fromstring content = Inl e)"
proof -
  let ?c = "strip content"
  have excl: "startswith ?c ''{'' \<or> startswith ?c ''['' \<Longrightarrow>
              \<not> (startswith ?c ''<?xml'' \<or> startswith ?c ''<'')"
    by (rule startswith_json_not_xml)
  show ?thesis
  proof (cases "startswith ?c ''{'' \<or> startswith ?c ''[''")
    case True
    with excl have nx: "\<not> (startswith ?c ''<?xml'' \<or> startswith ?c ''<'')" by simp
    show ?thesis
      using True nx
      by (cases "json_loads ?c")
         (simp_all add: detect_file_type_def json_accepts_def xml_accepts_def
            other_exception_def Let_def)
  next
    case False
    show ?thesis
      using False
      by (cases "fromstring ?c")
         (simp_all add: detect_file_type_def json_accepts_def xml_accepts_def
            other_exception_def Let_def)
  qed
qed

theorem detect_file_type_unsupported_iff_decode_errors_witness:
  "other_exception (\<lambda>s. if s = ''{}'' then Inr () else Inl JSONDecodeError)
         (\<lambda>s. if s = ''<a/>'' then Inr () else Inl ParseError) ''not json or xml'' = None
   \<and> json_accepts (\<lambda>s. if s = ''{}'' then Inr () else Inl JSONDecodeError) '' {} ''
   \<and> detect_file_type (\<lambda>s. if s = ''{}'' then Inr () else Inl JSONDecodeError)
         (\<lambda>s. if s = ''<a/>'' then Inr () else Inl ParseError) '' {} '' = Inr ''json''
   \<and> xml_accepts (\<lambda>s. if s = ''<a/>'' then Inr () else Inl ParseError) ''<a/>''
   \<and> detect_file_type (\<lambda>s. if s = ''{}'' then Inr () else Inl JSONDecodeError)
         (\<lambda>s. if s = ''<a/>'' then Inr () else Inl ParseError) ''<a/>'' = Inr ''xml''
   \<and> detect_file_type (\<lambda>s. if s = ''{}'' then Inr () else Inl JSONDecodeError)
         (\<lambda>s. if s = ''<a/>'' then Inr () else Inl ParseError) ''not json or xml''
       = Inl (ValueError unsupported_msg)
   \<and> other_exception loads_on_examples fromstring_on_examples deep_nesting_doc
       = Some RecursionError
   \<and> detect_file_type loads_on_examples fromstring_on_examples deep_nesting_doc
       = Inl RecursionError"
proof -
  let ?j = "\<lambda>s. if s = ''{}'' then Inr () else Inl JSONDecodeError"
  let ?x = "\<lambda>s. if s = ''<a/>'' then Inr () else Inl ParseError"
  have sj: "strip '' {} '' = ''{}''"
    by (simp add: strip_def lstrip_def rstrip_def isspace_def)
  have sx: "strip ''<a/>'' = ''<a/>''"
    by (simp add: strip_def lstrip_def rstrip_def isspace_def)
  have sn: "strip ''not json or xml'' = ''not json or xml''"
    by (simp add: strip_def lstrip_def rstrip_def isspace_def)
  have aj: "json_accepts ?j '' {} ''"
    by (simp add: json_accepts_def sj startswith_def)
  have ax: "xml_accepts ?x ''<a/>''"
    by (simp add: xml_accepts_def sx startswith_def)
  have nj: "\<not> json_accepts ?j ''not json or xml''"
    by (simp add: json_accepts_def sn startswith_def)
  have nx: "\<not> xml_accepts ?x ''not json or xml''"
    by (simp add: xml_accepts_def sn startswith_def)
  have on: "other_exception ?j ?x ''not json or xml'' = None"
    by (simp add: other_exception_def sn startswith_def)
  have od: "other_exception loads_on_examples fromstring_on_examples deep_nesting_doc
            = Some RecursionError"
    by (simp add: other_exception_def strip_deep_nesting_doc startswith_examples
          loads_on_examples_def)
  from detect_file_type_unsupported_iff_decode_errors [of ?j ?x "'' {} ''"] aj
  have r1: "detect_file_type ?j ?x '' {} '' = Inr ''json''" by blast
  from detect_file_type_unsupported_iff_decode_errors [of ?j ?x "''<a/>''"] ax
  have r2: "detect_file_type ?j ?x ''<a/>'' = Inr ''xml''" by blast
  from detect_file_type_unsupported_iff_decode_errors [of ?j ?x "''not json or xml''"] nj nx on
  have r3: "detect_file_type ?j ?x ''not json or xml'' = Inl (ValueError unsupported_msg)"
    by blast
  from detect_file_type_unsupported_iff_decode_errors
         [of loads_on_examples fromstring_on_examples deep_nesting_doc] od
  have r4: "detect_file_type loads_on_examples fromstring_on_examples deep_nesting_doc
            = Inl RecursionError"
    by blast
  show ?thesis using aj ax on od r1 r2 r3 r4 by simp
qed


section \<open>Properties of the JSON transform\<close>

text \<open>A list with one record whose \<open>parameters\<close> field is the number 1.\<close>

definition bad_parameters_doc :: "unit json" where
  "bad_parameters_doc = JList () [JDict () [(''parameters'', JInt 1)]]"

text \<open>
  C2.  The JSON transform raises on a record whose \<open>parameters\<close> field is not a container:
  for the document \<open>[{"parameters": 1}]\<close> the membership test
  \<^verbatim>\<open>"offensive_player" in item["parameters"]\<close> raises \<open>TypeError\<close>, so the transform does not
  return.
\<close>

theorem modify_json_raises_on_non_mapping_parameters:
  "snd (transform_json bad_parameters_doc) = Inl TypeError"
  by (simp add: bad_parameters_doc_def transform_json_def load_json_def modify_json_def
        modify_item_def mutate_json_def deref_json_def dict_setitem_def items_has_def
        str_in_def Let_def)


section \<open>Properties of the diff\<close>

text \<open>An XML library for closed examples: the claims about it do not depend on its output.\<close>

definition no_xml_lib :: "(unit, unit) xml_lib" where
  "no_xml_lib =
     \<lparr>tostring = (\<lambda>e enc. Inr ()), parseString = (\<lambda>b. Inr ()),
      toprettyxml = (\<lambda>d ind. Inr [])\<rparr>"

text \<open>
  C7.  If the original or the modified document is falsy, \<^verbatim>\<open>generate_diff\<close> returns the
  empty list of lines, whatever the other document is.
\<close>

theorem generate_diff_falsy_is_empty:
  "\<not> truthy original \<or> \<not> truthy modified
   \<Longrightarrow> generate_diff lib original modified file_type = Inr []"
  by (simp add: generate_diff_def)

theorem generate_diff_falsy_is_empty_witness:
  "\<not> truthy (Json (JDict 0 []))
   \<and> generate_diff no_xml_lib (Json (JDict 0 []))
         (Json (JDict 1 [(''new_field'', JStr ''This is a new value'')])) ''json''
       = Inr []"
proof -
  have f: "\<not> truthy (Json (JDict 0 []))" by simp
  then have "\<not> truthy (Json (JDict 0 []))
             \<or> \<not> truthy (Json (JDict 1 [(''new_field'', JStr ''This is a new value'')]))"
    by simp
  from generate_diff_falsy_is_empty [OF this] f show ?thesis by simp
qed

text \<open>The document of scenario 1, \<open>{"a": 1, "to_delete": 2}\<close>, and the lines of its diff.\<close>

definition scenario1 :: "unit json" where
  "scenario1 = JDict () [(''a'', JInt 1), (''to_delete'', JInt 2)]"

definition scenario1_diff_lines :: "string list" where
  "scenario1_diff_lines =
     [''  {'',
      ''    '' @ [CHR 0x22] @ ''a'' @ [CHR 0x22] @ '': 1,'',
      ''-   '' @ [CHR 0x22] @ ''to_delete'' @ [CHR 0x22] @ '': 2'',
      ''+   '' @ [CHR 0x22] @ ''new_field'' @ [CHR 0x22] @ '': ''
         @ [CHR 0x22] @ ''This is a new value'' @ [CHR 0x22],
      ''  }'']"

lemma scenario1_transform:
  "transform_json scenario1 =
     (JDict 0 [(''a'', JInt 1), (''to_delete'', JInt 2)],
      Inr (JDict 1 [(''a'', JInt 1), (''new_field'', JStr ''This is a new value'')]))"
  by (simp add: scenario1_def transform_json_def load_json_def modify_json_def
        mutate_json_def deref_json_def dict_setitem_def dict_delitem_def items_has_def
        items_del_def Let_def)

lemma scenario1_diff:
  "generate_diff lib (Json (JDict 0 [(''a'', JInt 1), (''to_delete'', JInt 2)]))
      (Json (JDict 1 [(''a'', JInt 1), (''new_field'', JStr ''This is a new value'')])) ''json''
   = Inr scenario1_diff_lines"
  by code_simp

lemma scenario1_html:
  "format_diff_html scenario1_diff_lines =
     ''<div>  {</div>''
     @ ''<div>    '' @ [CHR 0x22] @ ''a'' @ [CHR 0x22] @ '': 1,</div>''
     @ ''<div style='' @ [CHR 0x22] @ ''background-color: #ffb3b3'' @ [CHR 0x22] @ ''>''
       @ ''-   '' @ [CHR 0x22] @ ''to_delete'' @ [CHR 0x22] @ '': 2</div>''
     @ ''<div style='' @ [CHR 0x22] @ ''background-color: #a8ffa8'' @ [CHR 0x22] @ ''>''
       @ ''+   '' @ [CHR 0x22] @ ''new_field'' @ [CHR 0x22] @ '': ''
       @ [CHR 0x22] @ ''This is a new value'' @ [CHR 0x22] @ ''</div>''
     @ ''<div>  }</div>''"
  by (simp add: format_diff_html_def format_line_def scenario1_diff_lines_def startswith_def)

text \<open>
  C9.  For the input \<open>{"a": 1, "to_delete": 2}\<close> the transform returns
  \<open>{"a": 1, "new_field": "This is a new value"}\<close>, the keys in that order; the diff of the
  two documents has five lines, of which exactly one is a removed line (\<open>to_delete\<close>) and
  exactly one an added line (\<open>new_field\<close>), and it is rendered with one red and one green
  \<open>div\<close>.
\<close>

theorem scenario1_output_and_diff:
  "map_sum id erase_json (snd (transform_json scenario1))
     = Inr (JDict () [(''a'', JInt 1), (''new_field'', JStr ''This is a new value'')])
   \<and> (\<exists>modi. snd (transform_json scenario1) = Inr modi
        \<and> generate_diff lib (Json (fst (transform_json scenario1))) (Json modi) ''json''
            = Inr scenario1_diff_lines)
   \<and> length (filter (\<lambda>line. startswith line ''-'') scenario1_diff_lines) = 1
   \<and> length (filter (\<lambda>line. startswith line ''+'') scenario1_diff_lines) = 1
   \<and> length (filter (\<lambda>line. startswith line ''?'') scenario1_diff_lines) = 0
   \<and> format_diff_html scenario1_diff_lines =
       ''<div>  {</div>''
       @ ''<div>    '' @ [CHR 0x22] @ ''a'' @ [CHR 0x22] @ '': 1,</div>''
       @ ''<div style='' @ [CHR 0x22] @ ''background-color: #ffb3b3'' @ [CHR 0x22] @ ''>''
         @ ''-   '' @ [CHR 0x22] @ ''to_delete'' @ [CHR 0x22] @ '': 2</div>''
       @ ''<div style='' @ [CHR 0x22] @ ''background-color: #a8ffa8'' @ [CHR 0x22] @ ''>''
         @ ''+   '' @ [CHR 0x22] @ ''new_field'' @ [CHR 0x22] @ '': ''
         @ [CHR 0x22] @ ''This is a new value'' @ [CHR 0x22] @ ''</div>''
       @ ''<div>  }</div>''"
proof -
  have t: "map_sum id erase_json (snd (transform_json scenario1))
     = Inr (JDict () [(''a'', JInt 1), (''new_field'', JStr ''This is a new value'')])"
    by (simp add: scenario1_transform erase_json_def)
  have d: "\<exists>modi. snd (transform_json scenario1) = Inr modi
        \<and> generate_diff lib (Json (fst (transform_json scenario1))) (Json modi) ''json''
            = Inr scenario1_diff_lines"
    unfolding scenario1_transform fst_conv snd_conv
    using scenario1_diff [of lib] by blast
  have c: "length (filter (\<lambda>line. startswith line ''-'') scenario1_diff_lines) = 1
     \<and> length (filter (\<lambda>line. startswith line ''+'') scenario1_diff_lines) = 1
     \<and> length (filter (\<lambda>line. startswith line ''?'') scenario1_diff_lines) = 0"
    by (simp add: scenario1_diff_lines_def startswith_def)
  show ?thesis using t d c scenario1_html by blast
qed

theorem scenario1_output_and_diff_witness:
  "snd (transform_json scenario1)
     = Inr (JDict 1 [(''a'', JInt 1), (''new_field'', JStr ''This is a new value'')])
   \<and> generate_diff no_xml_lib (Json (fst (transform_json scenario1)))
         (Json (JDict 1 [(''a'', JInt 1), (''new_field'', JStr ''This is a new value'')])) ''json''
       = Inr scenario1_diff_lines"
  using scenario1_output_and_diff [of no_xml_lib] scenario1_transform by auto

text \<open>
  C10.  The emptiness test of \<^verbatim>\<open>generate_diff\<close> is Python's truth value of the parsed
  documents.  So the diff is empty when the original is the JSON value \<open>{}\<close>, \<open>[]\<close>, \<open>0\<close>,
  \<open>""\<close>, \<open>false\<close> or \<open>null\<close>, or an XML element without child elements, whatever the
  modified document is.  For the input \<open>{}\<close> the transform does change the document (it
  returns \<open>{"new_field": "This is a new value"}\<close>), and the diff of the two is empty.
\<close>

theorem generate_diff_empty_for_falsy_parsed_documents:
  "generate_diff lib (Json (JDict i [])) modified file_type = Inr []
   \<and> generate_diff lib (Json (JList i [])) modified file_type = Inr []
   \<and> generate_diff lib (Json (JInt 0)) modified file_type = Inr []
   \<and> generate_diff lib (Json (JStr [])) modified file_type = Inr []
   \<and> generate_diff lib (Json (JBool False)) modified file_type = Inr []
   \<and> generate_diff lib (Json JNull) modified file_type = Inr []
   \<and> generate_diff lib (Xml (Element i t a x l [])) modified file_type = Inr []
   \<and> transform_json (JDict () [])
       = (JDict 0 [], Inr (JDict 1 [(''new_field'', JStr ''This is a new value'')]))
   \<and> erase_json (JDict 1 [(''new_field'', JStr ''This is a new value'')]) \<noteq> JDict () []
   \<and> generate_diff lib (Json (JDict 0 []))
         (Json (JDict 1 [(''new_field'', JStr ''This is a new value'')])) ''json'' = Inr []"
proof -
  have t: "transform_json (JDict () [])
       = (JDict 0 [], Inr (JDict 1 [(''new_field'', JStr ''This is a new value'')]))"
    by (simp add: transform_json_def load_json_def modify_json_def
          mutate_json_def deref_json_def dict_setitem_def items_has_def Let_def)
  have e: "erase_json (JDict 1 [(''new_field'', JStr ''This is a new value'')]) \<noteq> JDict () []"
    by (simp add: erase_json_def)
  show ?thesis using t e by (simp add: generate_diff_def)
qed

theorem generate_diff_empty_for_falsy_parsed_documents_witness:
  "generate_diff no_xml_lib (Xml (Element 0 ''root'' [] None None []))
     (Xml (Element 1 ''root'' [] None None [])) ''xml'' = Inr []
   \<and> generate_diff no_xml_lib (Json (fst (transform_json (JDict () []))))
         (Json (JDict 1 [(''new_field'', JStr ''This is a new value'')])) ''json'' = Inr []"
proof -
  note t = generate_diff_empty_for_falsy_parsed_documents
             [of no_xml_lib 0 "Xml (Element 1 ''root'' [] None None [])" "''xml''"
                 "''root''" "[]" None None]
  from t have a: "generate_diff no_xml_lib (Xml (Element 0 ''root'' [] None None []))
     (Xml (Element 1 ''root'' [] None None [])) ''xml'' = Inr []"
    by blast
  from t have b: "transform_json (JDict () [])
       = (JDict 0 [], Inr (JDict 1 [(''new_field'', JStr ''This is a new value'')]))"
    by blast
  from t have c: "generate_diff no_xml_lib (Json (JDict 0 []))
         (Json (JDict 1 [(''new_field'', JStr ''This is a new value'')])) ''json'' = Inr []"
    by blast
  show ?thesis unfolding b fst_conv using a c by blast
qed


section \<open>A document compared with itself\<close>


definition nonpop :: "'a list \<Rightarrow> 'a \<Rightarrow> bool" where
  "nonpop b x = (chain_b b x \<noteq> [])"

fun diag_run :: "'a list \<Rightarrow> nat \<Rightarrow> nat" where
  "diag_run a 0 = (if nonpop a (a ! 0) then 1 else 0)"
| "diag_run a (Suc i) = (if nonpop a (a ! Suc i) then Suc (diag_run a i) else 0)"






lemma diag_run_pos: "nonpop a (a ! j) \<Longrightarrow> 0 < diag_run a j"
  by (cases j) simp_all


















subsection \<open>A document that cannot be pretty-printed\<close>










section \<open>The XML transform as a rewriting of the document\<close>

text \<open>
  The three loops of \<^verbatim>\<open>modify_xml\<close> update objects found by identity.  This part shows
  that, on a tree whose objects are distinct, they compute one bottom-up rewriting of the
  copied tree and leave the caller's tree alone.
\<close>

subsection \<open>Identities of a tree\<close>

text \<open>The identities of the objects of a tree, in document order.\<close>

definition ids :: "'i element \<Rightarrow> 'i list" where
  "ids e = map ident (iter_elems e)"

definition ids_list :: "'i element list \<Rightarrow> 'i list" where
  "ids_list es = concat (map ids es)"

lemma ids_Element [simp]: "ids (Element i t a x l cs) = i # ids_list cs"
  by (simp add: ids_def [abs_def] ids_list_def map_concat comp_def)

lemma ids_list_simps [simp]:
  "ids_list [] = []" "ids_list (c # cs) = ids c @ ids_list cs"
  by (simp_all add: ids_list_def)

lemma ids_list_append [simp]: "ids_list (xs @ ys) = ids_list xs @ ids_list ys"
  by (simp add: ids_list_def)

lemma ids_in_list: "c \<in> set cs \<Longrightarrow> set (ids c) \<subseteq> set (ids_list cs)"
  by (auto simp: ids_list_def)

lemma ident_in_ids [simp]: "ident e \<in> set (ids e)"
  by (cases e) simp

lemma distinct_mset_subseteq:
  assumes "mset xs \<subseteq># mset ys" "distinct ys"
  shows "distinct xs"
proof -
  have le: "count (mset xs) a \<le> 1" for a
  proof -
    have "count (mset ys) a \<le> 1"
      using assms(2) by (simp add: distinct_count_atmost_1)
    then show ?thesis using mset_subset_eq_count[OF assms(1), of a] by simp
  qed
  show ?thesis
    unfolding distinct_count_atmost_1
  proof
    fix a
    show "count (mset xs) a = (if a \<in> set xs then 1 else 0)"
      using le[of a] by (cases "a \<in> set xs") (auto simp: le_Suc_eq)
  qed
qed

lemma ids_list_map_cong:
  "(\<And>c. c \<in> set cs \<Longrightarrow> ids (f c) = ids c) \<Longrightarrow> ids_list (map f cs) = ids_list cs"
  by (induction cs) auto

lemma set_text_Element [simp]:
  "set_text s (Element i t a x l cs) = Element i t a s l cs"
  by (simp add: set_text_def)

lemma append_child_Element [simp]:
  "append_child c (Element i t a x l cs) = Element i t a x l (cs @ [c])"
  by (simp add: append_child_def)

lemma alloc_ids:
  "alloc_element n (e :: 'i element) = (e', n') \<Longrightarrow> ids e' = [n..<n'] \<and> n < n'"
  "alloc_elements n (cs :: 'i element list) = (cs', n') \<Longrightarrow> ids_list cs' = [n..<n'] \<and> n \<le> n'"
proof (induction n e and n cs arbitrary: e' n' and cs' n' rule: alloc_element_alloc_elements.induct)
  case (1 n uu t a x l cs)
  obtain cs1 n1 where c: "alloc_elements (Suc n) cs = (cs1, n1)" by (cases "alloc_elements (Suc n) cs")
  from "1.IH"[OF c] have "ids_list cs1 = [Suc n..<n1]" "Suc n \<le> n1" by simp_all
  moreover from "1.prems" c have "e' = Element n t a x l cs1" "n' = n1" by simp_all
  ultimately show ?case by (simp add: upt_conv_Cons)
next
  case (2 n)
  then show ?case by simp
next
  case (3 n c cs)
  obtain c1 n1 where c: "alloc_element n c = (c1, n1)" by (cases "alloc_element n c")
  obtain cs2 n2 where d: "alloc_elements n1 cs = (cs2, n2)" by (cases "alloc_elements n1 cs")
  from "3.IH"(1)[OF c] have 1: "ids c1 = [n..<n1]" "n < n1" by simp_all
  from "3.IH"(2)[OF c[symmetric] d] have 2: "ids_list cs2 = [n1..<n2]" "n1 \<le> n2" by simp_all
  from "3.prems" c d have "cs' = c1 # cs2" "n' = n2" by simp_all
  moreover have "[n..<n1] @ [n1..<n2] = [n..<n2]"
    using 1(2) 2(2) upt_add_eq_append[of n n1 "n2 - n1"] by simp
  ultimately show ?case using 1 2 by simp
qed


lemma erase_Element [simp]:
  "erase (Element i t a x l cs) = Element () t a x l (map erase cs)"
  by (simp add: erase_def [abs_def])

lemma erase_sel [simp]:
  "tag (erase e) = tag e" "attrib (erase e) = attrib e" "etext (erase e) = etext e"
  "tail (erase e) = tail e" "children (erase e) = map erase (children e)"
  by (cases e; simp)+

lemma alloc_erase:
  "alloc_element n (e :: 'i element) = (e', n') \<Longrightarrow> erase e' = erase e"
  "alloc_elements n (cs :: 'i element list) = (cs', n') \<Longrightarrow> map erase cs' = map erase cs"
proof (induction n e and n cs arbitrary: e' n' and cs' n' rule: alloc_element_alloc_elements.induct)
  case (1 n uu t a x l cs)
  obtain cs1 n1 where c: "alloc_elements (Suc n) cs = (cs1, n1)" by (cases "alloc_elements (Suc n) cs")
  from "1.IH"[OF c] "1.prems" c show ?case by auto
next
  case (2 n)
  then show ?case by simp
next
  case (3 n c cs)
  obtain c1 n1 where c: "alloc_element n c = (c1, n1)" by (cases "alloc_element n c")
  obtain cs2 n2 where d: "alloc_elements n1 cs = (cs2, n2)" by (cases "alloc_elements n1 cs")
  from "3.IH"(1)[OF c] "3.IH"(2)[OF c[symmetric] d] "3.prems" c d show ?case by auto
qed

subsection \<open>Updates in place\<close>

lemma update_elem_absent:
  "i \<notin> set (ids e) \<Longrightarrow> update_elem i f e = e"
proof (induction e)
  case (Element j t a x l cs)
  have "map (update_elem i f) cs = cs"
  proof (rule map_idI)
    fix c assume c: "c \<in> set cs"
    with Element.prems ids_in_list[OF c] have "i \<notin> set (ids c)" by auto
    then show "update_elem i f c = c" using Element.IH c by simp
  qed
  then show ?case using Element.prems by simp
qed

lemma update_elem_compose:
  assumes "\<And>m. ident (g m) = ident m"
  shows "update_elem i f (update_elem i g e) = update_elem i (f \<circ> g) e"
proof (induction e)
  case (Element j t a x l cs)
  show ?case
  proof (cases "i = j")
    case True
    obtain j' t' a' x' l' cs' where g: "g (Element j t a x l cs) = Element j' t' a' x' l' cs'"
      by (cases "g (Element j t a x l cs)")
    with assms[of "Element j t a x l cs"] have "j' = j" by simp
    then show ?thesis using True g by simp
  next
    case False
    then show ?thesis using Element.IH by simp
  qed
qed

lemma update_elem_ident [simp]:
  "(\<And>m. ident (f m) = ident m) \<Longrightarrow> ident (update_elem i f e) = ident e"
  by (cases e) simp

lemma update_elem_tag [simp]:
  "(\<And>m. tag (f m) = tag m) \<Longrightarrow> tag (update_elem i f e) = tag e"
  by (cases e) simp

lemma lookup_elem_None:
  "(lookup_elem p e = None) = (p \<notin> set (ids e))"
  "(lookup_elems p cs = None) = (p \<notin> set (ids_list cs))"
  by (induction p e and p cs rule: lookup_elem_lookup_elems.induct)
     (auto split: option.splits)

lemma lookup_elem_Some:
  "lookup_elem p e = Some pe \<Longrightarrow> ident pe = p \<and> pe \<in> set (iter_elems e)"
  "lookup_elems p cs = Some pe \<Longrightarrow> ident pe = p \<and> (\<exists>c\<in>set cs. pe \<in> set (iter_elems c))"
  by (induction p e and p cs arbitrary: pe and pe rule: lookup_elem_lookup_elems.induct)
     (auto split: option.splits if_splits)

text \<open>With distinct identities, an update only depends on what \<open>f\<close> does to the element found.\<close>

lemma update_elem_cong_found:
  "distinct (ids e) \<Longrightarrow> lookup_elem p e = Some pe \<Longrightarrow> f pe = g pe
   \<Longrightarrow> update_elem p f e = update_elem p g e"
  "distinct (ids_list cs) \<Longrightarrow> lookup_elems p cs = Some pe \<Longrightarrow> f pe = g pe
   \<Longrightarrow> map (update_elem p f) cs = map (update_elem p g) cs"
proof (induction p e and p cs arbitrary: pe and pe rule: lookup_elem_lookup_elems.induct)
  case (1 i j t a x l cs)
  then show ?case by (auto split: if_splits)
next
  case (2 i)
  then show ?case by simp
next
  case (3 i c cs)
  show ?case
  proof (cases "lookup_elem i c")
    case None
    then have "i \<notin> set (ids c)" by (simp add: lookup_elem_None)
    then have "update_elem i f c = c" "update_elem i g c = c"
      by (simp_all add: update_elem_absent)
    moreover have "map (update_elem i f) cs = map (update_elem i g) cs"
      using "3.IH"(2)[OF None] "3.prems" None by simp
    ultimately show ?thesis by simp
  next
    case (Some e)
    then have e: "e = pe" using "3.prems" by simp
    have "i \<in> set (ids c)" using Some lookup_elem_None(1)[of i c] by auto
    then have "i \<notin> set (ids_list cs)" using "3.prems"(1) by auto
    then have "\<forall>d\<in>set cs. i \<notin> set (ids d)" using ids_in_list by fastforce
    then have "map (update_elem i f) cs = cs" "map (update_elem i g) cs = cs"
      by (simp_all add: update_elem_absent map_idI)
    moreover have "update_elem i f c = update_elem i g c"
      using "3.IH"(1)[of pe] Some e "3.prems" by simp
    ultimately show ?thesis by simp
  qed
qed


subsection \<open>A loop of updates as one pass over the tree\<close>

text \<open>
  \<open>app F e\<close> rebuilds \<open>e\<close> bottom-up, applying \<open>F i\<close> to the rebuilt element with identity
  \<open>i\<close>.  Two updates commute at an identity when either order gives the same element.
\<close>

fun app :: "('i \<Rightarrow> 'i element \<Rightarrow> 'i element) \<Rightarrow> 'i element \<Rightarrow> 'i element" where
  "app F (Element i t a x l cs) = F i (Element i t a x l (map (app F) cs))"

lemma app_cong_ids:
  "(\<And>i. i \<in> set (ids e) \<Longrightarrow> F i = G i) \<Longrightarrow> app F e = app G e"
proof (induction e)
  case (Element j t a x l cs)
  have meq: "map (app F) cs = map (app G) cs"
  proof (rule map_cong[OF refl])
    fix c assume c: "c \<in> set cs"
    show "app F c = app G c"
      using Element.IH[OF c] Element.prems ids_in_list[OF c] by auto
  qed
  have "F j = G j" using Element.prems by simp
  then show ?case by (simp add: meq)
qed

lemma app_id [simp]: "app (\<lambda>i m. m) e = e"
  by (induction e) (simp add: map_idI)

definition commutes :: "'i \<Rightarrow> ('i element \<Rightarrow> 'i element) \<Rightarrow> ('i element \<Rightarrow> 'i element) \<Rightarrow> bool" where
  "commutes q h g = (\<forall>m. ident m \<noteq> q \<longrightarrow> update_elem q h (g m) = g (update_elem q h m))"

lemma commutes_id [simp]: "commutes q h (\<lambda>m. m)"
  by (simp add: commutes_def)

lemma update_app_step_aux:
  assumes "distinct (ids e)" "F p = (\<lambda>m. m)" "\<And>i. i \<noteq> p \<Longrightarrow> commutes p g (F i)"
    and F': "F' p = g" "\<And>i. i \<noteq> p \<Longrightarrow> F' i = F i"
  shows "update_elem p g (app F e) = app F' e"
  using assms(1)
proof (induction e)
  case (Element j t a x l cs)
  have dc: "distinct (ids c)" if "c \<in> set cs" for c
    using Element.prems that by (auto simp: ids_list_def distinct_concat_iff)
  show ?case
  proof (cases "j = p")
    case True
    have meq: "map (app F') cs = map (app F) cs"
    proof (rule map_cong[OF refl])
      fix c assume c: "c \<in> set cs"
      have "p \<notin> set (ids c)" using Element.prems True ids_in_list[OF c] by auto
      then show "app F' c = app F c"
        using F'(2) by (intro app_cong_ids) metis
    qed
    show ?thesis using True assms(2) F'(1) by (simp add: meq)
  next
    case False
    let ?m = "Element j t a x l (map (app F) cs)"
    have meq: "map (update_elem p g \<circ> app F) cs = map (app F') cs"
      using Element.IH dc by (intro map_cong[OF refl]) simp
    have "update_elem p g (F j ?m) = F j (update_elem p g ?m)"
      using assms(3)[of j] False by (simp add: commutes_def)
    also have "update_elem p g ?m = Element j t a x l (map (app F') cs)"
      using False by (simp add: meq)
    finally show ?thesis using False F'(2)[of j] by simp
  qed
qed

lemma update_app_step:
  assumes "distinct (ids e)" "F p = (\<lambda>m. m)" "\<And>i. i \<noteq> p \<Longrightarrow> commutes p g (F i)"
  shows "update_elem p g (app F e) = app (F(p := g)) e"
  using assms by (intro update_app_step_aux[where F = F]) simp_all

lemma fold_update_app:
  assumes "distinct (ids e)" "distinct (map fst pgs)"
    and "\<And>p g. (p, g) \<in> set pgs \<Longrightarrow> F p = (\<lambda>m. m)"
    and "\<And>i q h. (q, h) \<in> set pgs \<Longrightarrow> i \<noteq> q \<Longrightarrow> commutes q h (F i)"
    and "\<And>p g q h. (p, g) \<in> set pgs \<Longrightarrow> (q, h) \<in> set pgs \<Longrightarrow> p \<noteq> q \<Longrightarrow> commutes q h g"
  shows "fold (\<lambda>(p, g). update_elem p g) pgs (app F e)
         = app (\<lambda>i. case map_of pgs i of Some g \<Rightarrow> g | None \<Rightarrow> F i) e"
  using assms(2-5)
proof (induction pgs arbitrary: F)
  case Nil
  show ?case by simp
next
  case (Cons pg pgs)
  obtain p g where pg: "pg = (p, g)" by (cases pg)
  have step: "update_elem p g (app F e) = app (F(p := g)) e"
  proof (rule update_app_step[OF assms(1)])
    show "F p = (\<lambda>m. m)" using Cons.prems(2)[of p g] pg by simp
    show "commutes p g (F i)" if "i \<noteq> p" for i
      using Cons.prems(3)[of p g i] that pg by simp
  qed
  have pn: "p \<notin> fst ` set pgs" using Cons.prems(1) pg by simp
  have "fold (\<lambda>(p, g). update_elem p g) pgs (app (F(p := g)) e)
        = app (\<lambda>i. case map_of pgs i of Some g \<Rightarrow> g | None \<Rightarrow> (F(p := g)) i) e"
  proof (rule Cons.IH)
    show "distinct (map fst pgs)" using Cons.prems(1) by simp
    show "(F(p := g)) q = (\<lambda>m. m)" if "(q, h) \<in> set pgs" for q h
    proof -
      have "q \<noteq> p" using that pn by force
      then show ?thesis using Cons.prems(2)[of q h] that by simp
    qed
    show "commutes q h ((F(p := g)) i)" if "(q, h) \<in> set pgs" "i \<noteq> q" for i q h
    proof (cases "i = p")
      case True
      then show ?thesis using Cons.prems(4)[of p g q h] that pg by simp
    next
      case False
      then show ?thesis using Cons.prems(3)[of q h i] that by simp
    qed
    show "commutes q h g'" if "(p', g') \<in> set pgs" "(q, h) \<in> set pgs" "p' \<noteq> q" for p' g' q h
      using Cons.prems(4)[of p' g' q h] that by simp
  qed
  moreover have "(\<lambda>i. case map_of pgs i of Some g \<Rightarrow> g | None \<Rightarrow> (F(p := g)) i)
        = (\<lambda>i. case map_of (pg # pgs) i of Some g \<Rightarrow> g | None \<Rightarrow> F i)"
  proof
    fix i
    show "(case map_of pgs i of Some g \<Rightarrow> g | None \<Rightarrow> (F(p := g)) i)
        = (case map_of (pg # pgs) i of Some g \<Rightarrow> g | None \<Rightarrow> F i)"
    proof (cases "i = p")
      case True
      then have "map_of pgs i = None" using pn by (simp add: map_of_eq_None_iff)
      then show ?thesis using True pg by simp
    next
      case False
      then show ?thesis using pg by (simp split: option.splits)
    qed
  qed
  ultimately show ?case using step pg by simp
qed


subsection \<open>The loops of the XML transform, on the tree\<close>

text \<open>
  What one round of each loop does to the element it has found: the first loop leaves the
  children that are not \<open>team_name\<close>, the second appends the element \<open>something k\<close> that
  \<^verbatim>\<open>ET.SubElement(params, "something")\<close> creates and whose text is then set to \<open>2\<close>.
\<close>

definition strip_team_names :: "'i element \<Rightarrow> 'i element" where
  "strip_team_names m =
     Element (ident m) (tag m) (attrib m) (etext m) (tail m)
             (filter (\<lambda>c. tag c \<noteq> ''team_name'') (children m))"

definition something :: "'i \<Rightarrow> 'i element" where
  "something k = Element k ''something'' [] (Some ''2'') None []"

lemma mutate_xml_fresh:
  "p \<notin> set (ids (xml_root st))
   \<Longrightarrow> mutate_xml p f st = st\<lparr>modified_root := update_elem p f (modified_root st)\<rparr>"
  by (simp add: mutate_xml_def update_elem_absent)

lemma distinct_child_idents:
  "distinct (ids_list cs) \<Longrightarrow> distinct (map ident cs)"
proof (induction cs)
  case Nil
  show ?case by simp
next
  case (Cons c cs)
  have "ident d \<in> set (ids_list cs)" if "d \<in> set cs" for d
    using ids_in_list[OF that] ident_in_ids[of d] by auto
  moreover have "ident c \<notin> set (ids_list cs)"
    using Cons.prems ident_in_ids[of c] by (auto simp: disjoint_iff)
  ultimately show ?case using Cons by auto
qed

lemma distinct_ids_sub:
  "x \<in> set (iter_elems e) \<Longrightarrow> distinct (ids e) \<Longrightarrow> distinct (ids x)"
proof (induction e)
  case (Element j t a x' l cs)
  show ?case
  proof (cases "x = Element j t a x' l cs")
    case True
    then show ?thesis using Element.prems by simp
  next
    case False
    then obtain c where c: "c \<in> set cs" "x \<in> set (iter_elems c)"
      using Element.prems(1) by auto
    have "distinct (ids c)"
      using Element.prems(2) c(1) by (auto simp: ids_list_def distinct_concat_iff)
    then show ?thesis using Element.IH[OF c] by simp
  qed
qed

lemma remove_ident_filter:
  "distinct (map ident es) \<Longrightarrow> remove_ident c es = filter (\<lambda>e. ident e \<noteq> c) es"
proof (induction es)
  case Nil
  show ?case by simp
next
  case (Cons e es)
  show ?case
  proof (cases "ident e = c")
    case True
    then have "\<forall>d\<in>set es. ident d \<noteq> c" using Cons.prems by (auto simp: image_iff)
    then have "filter (\<lambda>e. ident e \<noteq> c) es = es" by (simp add: filter_id_conv)
    then show ?thesis using True by simp
  next
    case False
    then show ?thesis using Cons by simp
  qed
qed

lemma fold_remove_ident:
  "distinct (map ident es) \<Longrightarrow>
   fold remove_ident cs es = filter (\<lambda>e. ident e \<notin> set cs) es"
proof (induction cs arbitrary: es)
  case Nil
  show ?case by simp
next
  case (Cons c cs)
  have d: "distinct (map ident (filter (\<lambda>e. ident e \<noteq> c) es))"
    using Cons.prems by (simp add: distinct_map_filter)
  show ?case
    using Cons.IH[OF d] Cons.prems
    by (simp add: remove_ident_filter)
qed

lemma fold_remove_child:
  "fold remove_child cs m =
     Element (ident m) (tag m) (attrib m) (etext m) (tail m) (fold remove_ident cs (children m))"
  by (induction cs arbitrary: m) (simp_all add: remove_child_def)

lemma remove_found_team_names:
  assumes "distinct (map ident (children pe))"
  shows "fold remove_child (map ident (findall_children ''team_name'' pe)) pe = strip_team_names pe"
proof -
  have "filter (\<lambda>e. ident e \<notin> ident ` {c \<in> set (children pe). tag c = ''team_name''}) (children pe)
        = filter (\<lambda>c. tag c \<noteq> ''team_name'') (children pe)"
  proof (rule filter_cong[OF refl])
    fix e assume e: "e \<in> set (children pe)"
    have "ident e \<in> ident ` {c \<in> set (children pe). tag c = ''team_name''} \<longleftrightarrow> tag e = ''team_name''"
    proof
      assume "ident e \<in> ident ` {c \<in> set (children pe). tag c = ''team_name''}"
      then obtain c where c: "c \<in> set (children pe)" "tag c = ''team_name''" "ident c = ident e"
        by auto
      then have "c = e" using assms e by (meson distinct_map inj_onD)
      then show "tag e = ''team_name''" using c by simp
    next
      assume "tag e = ''team_name''"
      then show "ident e \<in> ident ` {c \<in> set (children pe). tag c = ''team_name''}"
        using e by auto
    qed
    then show "(ident e \<notin> ident ` {c \<in> set (children pe). tag c = ''team_name''})
               = (tag e \<noteq> ''team_name'')" by simp
  qed
  then show ?thesis
    using assms
    by (simp add: fold_remove_child fold_remove_ident findall_children_def strip_team_names_def)
qed

lemma update_elem_id [simp]: "update_elem p (\<lambda>m. m) e = e"
  by (induction e) (simp add: map_idI)

lemma fold_update_same:
  assumes "\<And>c m. ident (g c m) = ident m"
  shows "fold (\<lambda>c. update_elem p (g c)) cs e = update_elem p (fold g cs) e"
proof (induction cs arbitrary: e)
  case Nil
  show ?case by (simp add: id_def)
next
  case (Cons c cs)
  have "\<And>m. ident (fold g cs m) = ident m"
    by (induction cs) (simp_all add: assms)
  have "update_elem p (fold g cs) (update_elem p (g c) e) = update_elem p (fold g cs \<circ> g c) e"
    by (rule update_elem_compose) (rule assms)
  then show ?case using Cons.IH by (simp add: comp_def)
qed

lemma remove_team_names_tree:
  assumes "p \<notin> set (ids (xml_root st))" "distinct (ids (modified_root st))"
  shows "remove_team_names p st
         = st\<lparr>modified_root := update_elem p strip_team_names (modified_root st)\<rparr>"
proof (cases "lookup_elem p (modified_root st)")
  case None
  then have "p \<notin> set (ids (modified_root st))" by (simp add: lookup_elem_None)
  then have "update_elem p strip_team_names (modified_root st) = modified_root st"
    by (rule update_elem_absent)
  moreover have "lookup_elem p (xml_root st) = None"
    using assms(1) by (simp add: lookup_elem_None)
  ultimately show ?thesis using None
    by (simp add: remove_team_names_def deref_xml_def)
next
  case (Some pe)
  let ?cs = "map ident (findall_children ''team_name'' pe)"
  have pe: "pe \<in> set (iter_elems (modified_root st))"
    using lookup_elem_Some(1)[OF Some] by simp
  have "distinct (ids pe)" by (rule distinct_ids_sub[OF pe assms(2)])
  then have dc: "distinct (map ident (children pe))"
    by (cases pe) (simp add: distinct_child_idents)
  have loop: "fold (\<lambda>c. mutate_xml p (remove_child c)) cs st
        = st\<lparr>modified_root := fold (\<lambda>c. update_elem p (remove_child c)) cs (modified_root st)\<rparr>"
    if "p \<notin> set (ids (xml_root st))" for cs st
    using that by (induction cs arbitrary: st) (simp_all add: mutate_xml_fresh)
  have "fold (\<lambda>c. update_elem p (remove_child c)) ?cs (modified_root st)
        = update_elem p (fold remove_child ?cs) (modified_root st)"
    by (rule fold_update_same) (simp add: remove_child_def)
  also have "\<dots> = update_elem p strip_team_names (modified_root st)"
    by (rule update_elem_cong_found(1)[OF assms(2) Some]) (rule remove_found_team_names[OF dc])
  finally show ?thesis using Some loop[OF assms(1)]
    by (simp add: remove_team_names_def deref_xml_def)
qed


lemma set_text_of_new_child:
  "i \<notin> set (ids e) \<Longrightarrow> i \<noteq> p \<Longrightarrow>
   update_elem i (set_text s) (update_elem p (append_child (Element i tg [] None None [])) e)
   = update_elem p (append_child (Element i tg [] s None [])) e"
proof (induction e)
  case (Element j t a x l cs)
  have nc: "i \<notin> set (ids c)" if "c \<in> set cs" for c
    using Element.prems(1) ids_in_list[OF that] by auto
  show ?case
  proof (cases "p = j")
    case True
    have meq: "map (update_elem i (set_text s)) cs = cs"
      using nc by (intro map_idI) (simp add: update_elem_absent)
    show ?thesis using True Element.prems
      by (simp add: meq)
  next
    case False
    have meq: "map (update_elem i (set_text s) \<circ> update_elem p (append_child (Element i tg [] None None []))) cs
          = map (update_elem p (append_child (Element i tg [] s None []))) cs"
      using Element.IH nc Element.prems(2) by (intro map_cong[OF refl]) simp
    show ?thesis using False Element.prems by (simp add: meq)
  qed
qed

lemma add_something_tree:
  assumes "p \<notin> set (ids (xml_root st))" "next_id st \<notin> set (ids (xml_root st))"
    and "next_id st \<notin> set (ids (modified_root st))" "p \<noteq> next_id st"
  shows "add_something p st
         = st\<lparr>next_id := Suc (next_id st),
               modified_root := update_elem p (append_child (something (next_id st)))
                                  (modified_root st)\<rparr>"
  using assms
  by (simp add: add_something_def sub_element_def Let_def mutate_xml_def update_elem_absent
        set_text_of_new_child something_def del: set_text_Element append_child_Element)

lemma set_points_tree:
  "s \<notin> set (ids (xml_root st)) \<Longrightarrow>
   set_points s st
   = st\<lparr>modified_root := update_elem s (set_text (Some ''points'')) (modified_root st)\<rparr>"
  by (simp add: set_points_def mutate_xml_fresh)

subsection \<open>The identities after an update\<close>

lemma mset_ids_list_mono:
  "(\<And>c. c \<in> set cs \<Longrightarrow> mset (ids (f c)) \<subseteq># mset (ids c))
   \<Longrightarrow> mset (ids_list (map f cs)) \<subseteq># mset (ids_list cs)"
  by (induction cs) (auto intro: subset_mset.add_mono)

lemma mset_ids_list_filter: "mset (ids_list (filter P cs)) \<subseteq># mset (ids_list cs)"
  by (induction cs) (auto intro: subset_mset.add_mono simp: subset_mset.add_increasing)

lemma mset_ids_update_strip:
  "mset (ids (update_elem p strip_team_names e)) \<subseteq># mset (ids e)"
proof (induction e)
  case (Element j t a x l cs)
  show ?case
  proof (cases "p = j")
    case True
    then show ?thesis by (simp add: strip_team_names_def mset_ids_list_filter)
  next
    case False
    then show ?thesis using Element.IH by (simp add: mset_ids_list_mono)
  qed
qed

lemma distinct_update_strip:
  "distinct (ids e) \<Longrightarrow> distinct (ids (update_elem p strip_team_names e))"
  using mset_ids_update_strip[of p e] by (rule distinct_mset_subseteq)

lemma set_ids_update_strip:
  "set (ids (update_elem p strip_team_names e)) \<subseteq> set (ids e)"
  using mset_ids_update_strip[of p e] by (metis set_mset_mono set_mset_mset)

lemma ids_update_set_text [simp]: "ids (update_elem p (set_text s) e) = ids e"
proof (induction e)
  case (Element j t a x l cs)
  have "ids_list (map (update_elem p (set_text s)) cs) = ids_list cs"
    using Element.IH by (intro ids_list_map_cong) simp
  then show ?case by simp
qed

lemma set_ids_update_append:
  "set (ids (update_elem p (append_child c) e)) \<subseteq> set (ids e) \<union> set (ids c)"
proof (induction e)
  case (Element j t a x l cs)
  show ?case
  proof (cases "p = j")
    case True
    then show ?thesis by (cases c) auto
  next
    case False
    have "set (ids_list (map (update_elem p (append_child c)) cs)) \<subseteq> set (ids_list cs) \<union> set (ids c)"
      using Element.IH by (fastforce simp: ids_list_def)
    then show ?thesis using False by auto
  qed
qed

subsection \<open>The three loops\<close>

lemma fold_remove_team_names:
  assumes "set ps \<inter> set (ids (xml_root st)) = {}" "distinct (ids (modified_root st))"
  shows "fold remove_team_names ps st
         = st\<lparr>modified_root := fold (\<lambda>p. update_elem p strip_team_names) ps (modified_root st)\<rparr>"
  using assms
proof (induction ps arbitrary: st)
  case Nil
  show ?case by simp
next
  case (Cons p ps)
  let ?st = "st\<lparr>modified_root := update_elem p strip_team_names (modified_root st)\<rparr>"
  have 1: "remove_team_names p st = ?st"
    using Cons.prems by (intro remove_team_names_tree) auto
  have 2: "fold remove_team_names ps ?st
           = ?st\<lparr>modified_root := fold (\<lambda>p. update_elem p strip_team_names) ps (modified_root ?st)\<rparr>"
    using Cons.prems by (intro Cons.IH) (auto simp: distinct_update_strip)
  show ?case by (simp add: 1 2)
qed

text \<open>The updates of the second loop: the \<open>j\<close>-th element found gets the \<open>j\<close>-th new object.\<close>

definition something_updates :: "nat \<Rightarrow> nat list \<Rightarrow> (nat \<times> (nat element \<Rightarrow> nat element)) list" where
  "something_updates k ps = zip ps (map (\<lambda>j. append_child (something j)) [k..<k + length ps])"

lemma something_updates_Cons:
  "something_updates k (p # ps) = (p, append_child (something k)) # something_updates (Suc k) ps"
proof -
  have "[k..<k + length (p # ps)] = k # [Suc k..<Suc k + length ps]"
    by (simp add: upt_conv_Cons del: upt_Suc)
  then show ?thesis
    unfolding something_updates_def by (simp del: upt_Suc)
qed

lemma fold_add_something:
  assumes "\<forall>p\<in>set ps. p < next_id st \<and> p \<notin> set (ids (xml_root st))"
    and "\<forall>i\<in>set (ids (xml_root st)). i < next_id st"
    and "\<forall>i\<in>set (ids (modified_root st)). i < next_id st"
  shows "fold add_something ps st
         = st\<lparr>next_id := next_id st + length ps,
               modified_root := fold (\<lambda>(p, g). update_elem p g)
                                  (something_updates (next_id st) ps) (modified_root st)\<rparr>"
  using assms
proof (induction ps arbitrary: st)
  case Nil
  show ?case by (simp add: something_updates_def)
next
  case (Cons p ps)
  let ?k = "next_id st"
  let ?st = "st\<lparr>next_id := Suc ?k,
               modified_root := update_elem p (append_child (something ?k)) (modified_root st)\<rparr>"
  have 1: "add_something p st = ?st"
    using Cons.prems by (intro add_something_tree) auto
  have ids': "\<forall>i\<in>set (ids (modified_root ?st)). i < next_id ?st"
    using set_ids_update_append[of p "something ?k" "modified_root st"] Cons.prems(3)
    by (auto simp: something_def less_Suc_eq)
  have 2: "fold add_something ps ?st
         = ?st\<lparr>next_id := next_id ?st + length ps,
               modified_root := fold (\<lambda>(p, g). update_elem p g)
                                  (something_updates (next_id ?st) ps) (modified_root ?st)\<rparr>"
    using Cons.prems(1,2) ids' by (intro Cons.IH) (auto simp: less_Suc_eq)
  show ?case by (simp add: 1 2 something_updates_Cons)
qed

lemma fold_set_points:
  "set ps \<inter> set (ids (xml_root st)) = {} \<Longrightarrow>
   fold set_points ps st
   = st\<lparr>modified_root := fold (\<lambda>p. update_elem p (set_text (Some ''points''))) ps
                              (modified_root st)\<rparr>"
proof (induction ps arbitrary: st)
  case Nil
  show ?case by simp
next
  case (Cons p ps)
  then show ?case by (simp add: set_points_tree)
qed


subsection \<open>Each loop as one pass\<close>

lemma strip_team_names_Element [simp]:
  "strip_team_names (Element i t a x l cs)
   = Element i t a x l (filter (\<lambda>c. tag c \<noteq> ''team_name'') cs)"
  by (simp add: strip_team_names_def)

lemma strip_team_names_sel [simp]:
  "ident (strip_team_names m) = ident m" "tag (strip_team_names m) = tag m"
  by (simp_all add: strip_team_names_def)

lemma set_text_sel [simp]:
  "ident (set_text s m) = ident m" "tag (set_text s m) = tag m"
  by (simp_all add: set_text_def)

lemma append_child_sel [simp]:
  "ident (append_child c m) = ident m" "tag (append_child c m) = tag m"
  by (simp_all add: append_child_def)

lemma commutes_strip: "commutes q strip_team_names strip_team_names"
  unfolding commutes_def
proof (intro allI impI)
  fix m :: "'a element"
  assume "ident m \<noteq> q"
  then show "update_elem q strip_team_names (strip_team_names m)
             = strip_team_names (update_elem q strip_team_names m)"
    by (cases m) (simp add: filter_map comp_def)
qed

lemma commutes_set_text: "commutes q (set_text s) (set_text s)"
  unfolding commutes_def
proof (intro allI impI)
  fix m :: "'a element"
  assume "ident m \<noteq> q"
  then show "update_elem q (set_text s) (set_text s m) = set_text s (update_elem q (set_text s) m)"
    by (cases m) simp
qed

lemma commutes_append:
  "k \<noteq> q \<Longrightarrow> commutes q h (append_child (something k))"
  unfolding commutes_def
proof (intro allI impI)
  fix m :: "'a element"
  assume "k \<noteq> q" "ident m \<noteq> q"
  then show "update_elem q h (append_child (something k) m)
             = append_child (something k) (update_elem q h m)"
    by (cases m) (simp add: something_def)
qed

lemma fold_update_uniform:
  assumes "distinct (ids e)" "distinct ps" "\<And>q. commutes q g g"
  shows "fold (\<lambda>p. update_elem p g) ps e = app (\<lambda>i. if i \<in> set ps then g else (\<lambda>m. m)) e"
proof -
  let ?pgs = "map (\<lambda>p. (p, g)) ps"
  have "fold (\<lambda>(p, g). update_elem p g) ?pgs (app (\<lambda>i m. m) e)
        = app (\<lambda>i. case map_of ?pgs i of Some g \<Rightarrow> g | None \<Rightarrow> (\<lambda>m. m)) e"
    using assms by (intro fold_update_app) (auto simp: comp_def)
  moreover have "fold (\<lambda>(p, g). update_elem p g) ?pgs = fold (\<lambda>p. update_elem p g) ps"
    by (simp add: fold_map comp_def)
  moreover have "map_of ?pgs i = (if i \<in> set ps then Some g else None)" for i
    by (induction ps) auto
  ultimately show ?thesis by (simp add: if_distrib cong: if_cong)
qed

lemma something_updates_fst: "map fst (something_updates k ps) = ps"
  by (simp add: something_updates_def)

lemma something_updates_snd:
  assumes "(q, h) \<in> set (something_updates k ps)"
  shows "\<exists>j\<ge>k. h = append_child (something j)"
proof -
  obtain n where "h = append_child (something (k + n))"
    using assms by (auto simp: something_updates_def in_set_zip)
  then show ?thesis by (intro exI[of _ "k + n"]) simp
qed

lemma fold_update_something:
  assumes "distinct (ids e)" "distinct ps" "\<forall>p\<in>set ps. p < k"
  shows "fold (\<lambda>(p, g). update_elem p g) (something_updates k ps) e
         = app (\<lambda>i. case map_of (something_updates k ps) i of Some g \<Rightarrow> g | None \<Rightarrow> (\<lambda>m. m)) e"
proof -
  have "fold (\<lambda>(p, g). update_elem p g) (something_updates k ps) (app (\<lambda>i m. m) e)
        = app (\<lambda>i. case map_of (something_updates k ps) i of Some g \<Rightarrow> g | None \<Rightarrow> (\<lambda>m. m)) e"
  proof (rule fold_update_app[OF assms(1)])
    show "distinct (map fst (something_updates k ps))"
      using assms(2) by (simp add: something_updates_fst)
    show "commutes q h g"
      if pg: "(p, g) \<in> set (something_updates k ps)"
        and qh: "(q, h) \<in> set (something_updates k ps)" and "p \<noteq> q"
      for p g q h
    proof -
      obtain j where j: "j \<ge> k" "g = append_child (something j)"
        using something_updates_snd[OF pg] by auto
      have "q \<in> set ps"
        using qh something_updates_fst[of k ps] by (metis fst_conv image_eqI set_map)
      then have "j \<noteq> q" using assms(3) j(1) by auto
      then show ?thesis unfolding j(2) by (rule commutes_append)
    qed
  qed simp_all
  then show ?thesis by simp
qed


subsection \<open>The identities after appending a child\<close>

lemma mset_ids_list_update_one:
  assumes "distinct (ids_list cs)"
    and "\<And>d. d \<in> set cs \<Longrightarrow> distinct (ids d) \<Longrightarrow> mset (ids (u d)) \<subseteq># mset (ids d) + K"
    and "\<And>d. p \<notin> set (ids d) \<Longrightarrow> u d = d"
  shows "mset (ids_list (map u cs)) \<subseteq># mset (ids_list cs) + K"
  using assms(1,2)
proof (induction cs)
  case Nil
  show ?case by simp
next
  case (Cons d ds)
  have dd: "distinct (ids d)" "distinct (ids_list ds)" "set (ids d) \<inter> set (ids_list ds) = {}"
    using Cons.prems(1) by simp_all
  show ?case
  proof (cases "p \<in> set (ids d)")
    case True
    then have "p \<notin> set (ids_list ds)" using dd(3) by auto
    then have "\<forall>c\<in>set ds. p \<notin> set (ids c)" using ids_in_list by fastforce
    then have "map u ds = ds" using assms(3) by (simp add: map_idI)
    moreover have "mset (ids (u d)) \<subseteq># mset (ids d) + K"
      using Cons.prems(2)[of d] dd(1) by simp
    ultimately show ?thesis
      by (simp add: subset_mset.add_mono add.assoc add.commute[of K])
  next
    case False
    then have "u d = d" by (rule assms(3))
    moreover have "mset (ids_list (map u ds)) \<subseteq># mset (ids_list ds) + K"
      using Cons.prems(2) dd(2) by (intro Cons.IH) auto
    ultimately show ?thesis by (simp add: add.assoc)
  qed
qed

lemma mset_ids_update_append:
  "distinct (ids e) \<Longrightarrow>
   mset (ids (update_elem p (append_child c) e)) \<subseteq># mset (ids e) + mset (ids c)"
proof (induction e)
  case (Element j t a x l cs)
  show ?case
  proof (cases "p = j")
    case True
    then show ?thesis by simp
  next
    case False
    have "mset (ids_list (map (update_elem p (append_child c)) cs))
          \<subseteq># mset (ids_list cs) + mset (ids c)"
    proof (rule mset_ids_list_update_one)
      show "distinct (ids_list cs)" using Element.prems by simp
      show "mset (ids (update_elem p (append_child c) d)) \<subseteq># mset (ids d) + mset (ids c)"
        if "d \<in> set cs" "distinct (ids d)" for d
        using Element.IH that by simp
      show "update_elem p (append_child c) d = d" if "p \<notin> set (ids d)" for d
        using that by (rule update_elem_absent)
    qed
    then show ?thesis using False by simp
  qed
qed

lemma distinct_update_something:
  assumes "distinct (ids e)" "k \<notin> set (ids e)"
  shows "distinct (ids (update_elem p (append_child (something k)) e))"
proof -
  have "mset (ids (update_elem p (append_child (something k)) e)) \<subseteq># mset (ids e @ [k])"
    using mset_ids_update_append[OF assms(1), of p "something k"] by (simp add: something_def)
  moreover have "distinct (ids e @ [k])" using assms by simp
  ultimately show ?thesis by (rule distinct_mset_subseteq)
qed

lemma distinct_fold_something:
  assumes "distinct (ids e)" "\<forall>i\<in>set (ids e). i < k"
  shows "distinct (ids (fold (\<lambda>(p, g). update_elem p g) (something_updates k ps) e))
         \<and> (\<forall>i\<in>set (ids (fold (\<lambda>(p, g). update_elem p g) (something_updates k ps) e)).
               i < k + length ps)"
  using assms
proof (induction ps arbitrary: k e)
  case Nil
  then show ?case by (simp add: something_updates_def)
next
  case (Cons p ps)
  let ?e = "update_elem p (append_child (something k)) e"
  have d: "distinct (ids ?e)"
    using Cons.prems by (intro distinct_update_something) auto
  have b: "\<forall>i\<in>set (ids ?e). i < Suc k"
    using set_ids_update_append[of p "something k" e] Cons.prems(2)
    by (auto simp: something_def less_Suc_eq)
  from Cons.IH[OF d b] show ?case by (simp add: something_updates_Cons)
qed

subsection \<open>A pass on the tree without identities\<close>

text \<open>
  \<open>tag_pass T g\<close> rebuilds a tree bottom-up, applying \<open>g\<close> to every rebuilt element with tag
  \<open>T\<close>; \<open>root_pass\<close> does so below the root and keeps the root itself.
\<close>

fun tag_pass :: "string \<Rightarrow> ('i element \<Rightarrow> 'i element) \<Rightarrow> 'i element \<Rightarrow> 'i element" where
  "tag_pass T g (Element i t a x l cs) =
     (if t = T then g (Element i t a x l (map (tag_pass T g) cs))
      else Element i t a x l (map (tag_pass T g) cs))"

definition root_pass :: "string \<Rightarrow> ('i element \<Rightarrow> 'i element) \<Rightarrow> 'i element \<Rightarrow> 'i element" where
  "root_pass T g r =
     Element (ident r) (tag r) (attrib r) (etext r) (tail r) (map (tag_pass T g) (children r))"

lemma erase_app:
  assumes "\<And>y m. y \<in> set (iter_elems e) \<Longrightarrow> tag y = T \<Longrightarrow> erase (F (ident y) m) = g (erase m)"
    and "\<And>y. y \<in> set (iter_elems e) \<Longrightarrow> tag y \<noteq> T \<Longrightarrow> F (ident y) = (\<lambda>m. m)"
  shows "erase (app F e) = tag_pass T g (erase e)"
  using assms
proof (induction e)
  case (Element i t a x l cs)
  have meq: "map (erase \<circ> app F) cs = map (tag_pass T g \<circ> erase) cs"
  proof (rule map_cong[OF refl])
    fix c assume c: "c \<in> set cs"
    have "erase (app F c) = tag_pass T g (erase c)"
    proof (rule Element.IH[OF c])
      show "erase (F (ident y) m) = g (erase m)" if "y \<in> set (iter_elems c)" "tag y = T" for y m
        using Element.prems(1)[of y m] that c by auto
      show "F (ident y) = (\<lambda>m. m)" if "y \<in> set (iter_elems c)" "tag y \<noteq> T" for y
        using Element.prems(2)[of y] that c by auto
    qed
    then show "(erase \<circ> app F) c = (tag_pass T g \<circ> erase) c" by simp
  qed
  show ?case
  proof (cases "t = T")
    case True
    have "erase (F i (Element i t a x l (map (app F) cs)))
          = g (erase (Element i t a x l (map (app F) cs)))"
      using Element.prems(1)[of "Element i t a x l cs"] True by simp
    then show ?thesis using True by (simp add: meq)
  next
    case False
    have "F i = (\<lambda>m. m)"
      using Element.prems(2)[of "Element i t a x l cs"] False by simp
    then show ?thesis using False by (simp add: meq)
  qed
qed

lemma ident_inj_on_tree:
  "distinct (ids e) \<Longrightarrow> y \<in> set (iter_elems e) \<Longrightarrow> z \<in> set (iter_elems e)
   \<Longrightarrow> ident y = ident z \<Longrightarrow> y = z"
  unfolding ids_def by (meson distinct_map inj_onD)

lemma descendants_Element [simp]:
  "descendants (Element i t a x l cs) = concat (map iter_elems cs)"
  by (simp add: descendants_def)

lemma erase_root_app:
  fixes r :: "'i element"
  assumes d: "distinct (ids r)"
    and S: "S = ident ` {y \<in> set (descendants r). tag y = T}"
    and G: "\<And>j m. j \<in> S \<Longrightarrow> erase (F j m) = g (erase m)"
    and I: "\<And>j. j \<notin> S \<Longrightarrow> F j = (\<lambda>m. m)"
  shows "erase (app F r) = root_pass T g (erase r)"
proof (cases r)
  case (Element i t a x l cs)
  have iS: "i \<notin> S"
  proof
    assume "i \<in> S"
    then obtain y where y: "y \<in> set (descendants r)" "ident y = i" using S by auto
    then have "i \<in> set (ids_list cs)"
      using Element by (auto simp: ids_list_def ids_def)
    then show False using d Element by simp
  qed
  have meq: "map (erase \<circ> app F) cs = map (tag_pass T g \<circ> erase) cs"
  proof (rule map_cong[OF refl])
    fix c assume c: "c \<in> set cs"
    have sub: "y \<in> set (descendants r)" if "y \<in> set (iter_elems c)" for y
      using that c Element by auto
    have "erase (app F c) = tag_pass T g (erase c)"
    proof (rule erase_app)
      show "erase (F (ident y) m) = g (erase m)" if "y \<in> set (iter_elems c)" "tag y = T" for y m
        using G[of "ident y" m] sub[OF that(1)] that(2) S by auto
      show "F (ident y) = (\<lambda>m. m)" if "y \<in> set (iter_elems c)" "tag y \<noteq> T" for y
      proof (rule I)
        show "ident y \<notin> S"
        proof
          assume "ident y \<in> S"
          then obtain z where z: "z \<in> set (descendants r)" "tag z = T" "ident z = ident y"
            using S by auto
          have "z \<in> set (iter_elems r)" "y \<in> set (iter_elems r)"
            using z(1) sub[OF that(1)] Element by auto
          then have "z = y" using ident_inj_on_tree[OF d] z(3) by blast
          then show False using z(2) that(2) by simp
        qed
      qed
    qed
    then show "(erase \<circ> app F) c = (tag_pass T g \<circ> erase) c" by simp
  qed
  show ?thesis using Element I[OF iS] by (simp add: root_pass_def meq)
qed


subsection \<open>The transform as a function on documents\<close>

text \<open>
  The transform in the words of its description, on a document without identities: below
  the root, every \<open>shot_type\<close> element gets the text \<open>points\<close>, and every \<open>parameters\<close>
  element loses its \<open>team_name\<close> children and gets a last child \<open>something\<close> with text \<open>2\<close>.
  \<open>modify_xml_refines\<close> below compares it with \<open>modify_xml\<close>.
\<close>

fun rewrite_element :: "unit element \<Rightarrow> unit element" where
  "rewrite_element (Element u t a x l cs) =
     Element u t a (if t = ''shot_type'' then Some ''points'' else x) l
       (if t = ''parameters''
        then filter (\<lambda>c. tag c \<noteq> ''team_name'') (map rewrite_element cs) @ [something ()]
        else map rewrite_element cs)"

definition rewrite_document :: "unit element \<Rightarrow> unit element" where
  "rewrite_document r =
     Element (ident r) (tag r) (attrib r) (etext r) (tail r) (map rewrite_element (children r))"

lemma tag_pass_tag [simp]:
  "(\<And>m. tag (g m) = tag m) \<Longrightarrow> tag (tag_pass T g e) = tag e"
  by (cases e) simp

lemma rewrite_element_tag [simp]: "tag (rewrite_element e) = tag e"
  by (cases e) simp

lemma three_passes:
  "tag_pass ''shot_type'' (set_text (Some ''points''))
     (tag_pass ''parameters'' (append_child (something ()))
        (tag_pass ''parameters'' strip_team_names e))
   = rewrite_element e"
proof (induction e)
  case (Element u t a x l cs)
  let ?p1 = "tag_pass ''parameters'' strip_team_names :: unit element \<Rightarrow> unit element"
  let ?p2 = "tag_pass ''parameters'' (append_child (something ())) :: unit element \<Rightarrow> unit element"
  let ?p3 = "tag_pass ''shot_type'' (set_text (Some ''points'')) :: unit element \<Rightarrow> unit element"
  have meq: "map (?p3 \<circ> ?p2 \<circ> ?p1) cs = map rewrite_element cs"
    using Element.IH by (intro map_cong[OF refl]) simp
  have tg: "tag (?p3 (?p2 c)) = tag c" for c by simp
  show ?case
  proof (cases "t = ''parameters''")
    case True
    have "map ?p3 (map ?p2 (filter (\<lambda>c. tag c \<noteq> ''team_name'') (map ?p1 cs)))
          = filter (\<lambda>c. tag c \<noteq> ''team_name'') (map (?p3 \<circ> ?p2 \<circ> ?p1) cs)"
      by (simp add: filter_map comp_def)
    then have fm: "map (?p3 \<circ> ?p2) (filter (\<lambda>c. tag c \<noteq> ''team_name'') (map ?p1 cs))
          = filter (\<lambda>c. tag c \<noteq> ''team_name'') (map rewrite_element cs)"
      by (simp only: meq map_map)
    have s3: "?p3 (something ()) = something ()"
      by (simp add: something_def)
    show ?thesis using True
      by (simp add: fm s3)
  next
    case False
    then show ?thesis using meq by (simp add: comp_def)
  qed
qed

lemma three_root_passes:
  "root_pass ''shot_type'' (set_text (Some ''points''))
     (root_pass ''parameters'' (append_child (something ()))
        (root_pass ''parameters'' strip_team_names r))
   = rewrite_document r"
  by (simp add: root_pass_def rewrite_document_def three_passes comp_def)

lemma erase_strip [simp]: "erase (strip_team_names m) = strip_team_names (erase m)"
  by (cases m) (simp add: filter_map comp_def)

lemma erase_set_text [simp]: "erase (set_text s m) = set_text s (erase m)"
  by (cases m) simp

lemma erase_append_something [simp]:
  "erase (append_child (something k) m) = append_child (something ()) (erase m)"
  by (cases m) (simp add: something_def)

lemma found_idents:
  "set (map ident (findall_descendants T e)) = ident ` {y \<in> set (descendants e). tag y = T}"
  by (auto simp: findall_descendants_def)

lemma descendants_ids: "set (map ident (descendants e)) \<subseteq> set (ids e)"
  by (cases e) (auto simp: ids_list_def ids_def)

lemma found_in_ids: "set (map ident (findall_descendants T e)) \<subseteq> set (ids e)"
  using descendants_ids[of e] by (auto simp: findall_descendants_def)

lemma distinct_found:
  "distinct (ids e) \<Longrightarrow> distinct (map ident (findall_descendants T e))"
proof -
  assume d: "distinct (ids e)"
  have "distinct (map ident (descendants e))"
    using d by (cases e) (simp add: ids_list_def ids_def map_concat comp_def)
  then show ?thesis
    unfolding findall_descendants_def by (rule distinct_map_filter)
qed

lemma fold_update_strip_ids:
  "distinct (ids e) \<Longrightarrow>
   distinct (ids (fold (\<lambda>p. update_elem p strip_team_names) ps e))
   \<and> set (ids (fold (\<lambda>p. update_elem p strip_team_names) ps e)) \<subseteq> set (ids e)"
proof (induction ps arbitrary: e)
  case Nil
  then show ?case by simp
next
  case (Cons p ps)
  from Cons.IH[OF distinct_update_strip[OF Cons.prems, of p]]
       set_ids_update_strip[of p e]
  show ?case by auto
qed

lemma fold_something_lower:
  "\<forall>i\<in>set (ids (fold (\<lambda>(p, g). update_elem p g) (something_updates k ps) e)).
      i \<in> set (ids e) \<or> k \<le> i"
proof (induction ps arbitrary: k e)
  case Nil
  show ?case by (simp add: something_updates_def)
next
  case (Cons p ps)
  let ?e = "update_elem p (append_child (something k)) e"
  have "\<forall>i\<in>set (ids ?e). i \<in> set (ids e) \<or> i = k"
    using set_ids_update_append[of p "something k" e] by (auto simp: something_def)
  with Cons.IH[of "Suc k" ?e] show ?case
    by (fastforce simp: something_updates_Cons)
qed


lemma something_updates_map_of:
  "map_of (something_updates k ps) j = Some g \<Longrightarrow> \<exists>i. g = append_child (something i)"
  using something_updates_snd[of j g k ps] by (auto dest: map_of_SomeD)

lemma something_updates_map_of_None:
  "j \<notin> set ps \<Longrightarrow> map_of (something_updates k ps) j = None"
  using something_updates_fst[of k ps] by (metis map_of_eq_None_iff set_map)

lemma something_updates_map_of_Some:
  "j \<in> set ps \<Longrightarrow> \<exists>g. map_of (something_updates k ps) j = Some g"
  using something_updates_fst[of k ps]
  by (metis map_of_eq_None_iff not_None_eq set_map)

lemma modify_xml_refines:
  assumes low: "\<forall>i\<in>set (ids xroot). i < n"
  shows "fst (modify_xml n xroot) = xroot
         \<and> erase (snd (modify_xml n xroot)) = rewrite_document (erase xroot)"
proof -
  obtain copy n' where al: "alloc_element n xroot = (copy, n')"
    by (cases "alloc_element n xroot")
  have ic: "ids copy = [n..<n']" using alloc_ids(1)[OF al] by simp
  have ec: "erase copy = erase xroot" by (rule alloc_erase(1)[OF al])
  have dc: "distinct (ids copy)" by (simp add: ic)
  define st0 where "st0 = \<lparr>xml_root = xroot, modified_root = copy, next_id = n'\<rparr>"
  \<comment> \<open>first loop\<close>
  define ps1 where "ps1 = map ident (findall_descendants ''parameters'' copy)"
  define t1 where "t1 = fold (\<lambda>p. update_elem p strip_team_names) ps1 copy"
  have p1: "set ps1 \<subseteq> {n..<n'}"
    using found_in_ids[of "''parameters''" copy] by (simp add: ps1_def ic)
  have n': "n < n'" using alloc_ids(1)[OF al] by simp
  have disj1: "set ps1 \<inter> set (ids xroot) = {}"
    using p1 low by fastforce
  have s1: "fold remove_team_names ps1 st0 = st0\<lparr>modified_root := t1\<rparr>"
    unfolding t1_def
    using fold_remove_team_names[of ps1 st0] disj1 dc
    by (simp add: st0_def)
  have d1: "distinct (ids t1)" and i1: "set (ids t1) \<subseteq> {n..<n'}"
    using fold_update_strip_ids[OF dc, of ps1] by (auto simp: t1_def ic)
  have "t1 = app (\<lambda>i. if i \<in> set ps1 then strip_team_names else (\<lambda>m. m)) copy"
    unfolding t1_def
    by (rule fold_update_uniform[OF dc]) (simp_all add: ps1_def distinct_found[OF dc] commutes_strip)
  moreover have "erase (app (\<lambda>i. if i \<in> set ps1 then strip_team_names else (\<lambda>m. m)) copy)
                 = root_pass ''parameters'' strip_team_names (erase copy)"
  proof (rule erase_root_app[OF dc, of "set ps1"])
    show "set ps1 = ident ` {y \<in> set (descendants copy). tag y = ''parameters''}"
      unfolding ps1_def by (rule found_idents)
  qed simp_all
  ultimately have e1: "erase t1 = root_pass ''parameters'' strip_team_names (erase copy)"
    by simp
  \<comment> \<open>second loop\<close>
  define ps2 where "ps2 = map ident (findall_descendants ''parameters'' t1)"
  define t2 where "t2 = fold (\<lambda>(p, g). update_elem p g) (something_updates n' ps2) t1"
  have p2: "set ps2 \<subseteq> {n..<n'}"
    using found_in_ids[of "''parameters''" t1] i1 by (auto simp: ps2_def)
  have h2a: "\<forall>p\<in>set ps2. p < n' \<and> p \<notin> set (ids xroot)"
    using p2 low by fastforce
  have h2b: "\<forall>i\<in>set (ids xroot). i < n'" using low n' by fastforce
  have h2c: "\<forall>i\<in>set (ids t1). i < n'" using i1 by fastforce
  have s2: "fold add_something ps2 (st0\<lparr>modified_root := t1\<rparr>)
            = st0\<lparr>modified_root := t2, next_id := n' + length ps2\<rparr>"
    unfolding t2_def
    using fold_add_something[of ps2 "st0\<lparr>modified_root := t1\<rparr>"] h2a h2b h2c
    by (simp add: st0_def)
  have d2: "distinct (ids t2)"
    using distinct_fold_something[OF d1 h2c, of ps2] by (simp add: t2_def)
  have i2: "\<forall>i\<in>set (ids t2). n \<le> i"
  proof
    fix i assume "i \<in> set (ids t2)"
    then have "i \<in> set (ids t1) \<or> n' \<le> i"
      using fold_something_lower[of n' ps2 t1] by (simp add: t2_def)
    then show "n \<le> i" using i1 n' by fastforce
  qed
  let ?F2 = "\<lambda>i. case map_of (something_updates n' ps2) i of Some g \<Rightarrow> g | None \<Rightarrow> (\<lambda>m. m)"
  have lt2: "\<forall>p\<in>set ps2. p < n'" using h2a by blast
  have dps2: "distinct ps2" by (simp add: ps2_def distinct_found[OF d1])
  have "t2 = app ?F2 t1"
    unfolding t2_def by (rule fold_update_something[OF d1 dps2 lt2])
  moreover have "erase (app ?F2 t1) = root_pass ''parameters'' (append_child (something ())) (erase t1)"
  proof (rule erase_root_app[OF d1, of "set ps2"])
    show "set ps2 = ident ` {y \<in> set (descendants t1). tag y = ''parameters''}"
      unfolding ps2_def by (rule found_idents)
    show "erase (?F2 j m) = append_child (something ()) (erase m)" if jin: "j \<in> set ps2" for j m
    proof -
      obtain g where g: "map_of (something_updates n' ps2) j = Some g"
        using something_updates_map_of_Some[OF jin] by auto
      then obtain i where "g = append_child (something i)"
        using something_updates_map_of by blast
      then show ?thesis using g by simp
    qed
    show "?F2 j = (\<lambda>m. m)" if "j \<notin> set ps2" for j
      using something_updates_map_of_None[OF that] by simp
  qed
  ultimately have e2: "erase t2 = root_pass ''parameters'' (append_child (something ())) (erase t1)"
    by simp
  \<comment> \<open>third loop\<close>
  define ps3 where "ps3 = map ident (findall_descendants ''shot_type'' t2)"
  define t3 where "t3 = fold (\<lambda>p. update_elem p (set_text (Some ''points''))) ps3 t2"
  have p3: "\<forall>p\<in>set ps3. n \<le> p"
    using found_in_ids[of "''shot_type''" t2] i2 by (auto simp: ps3_def)
  have disj3: "set ps3 \<inter> set (ids xroot) = {}"
    using p3 low by fastforce
  have s3: "fold set_points ps3 (st0\<lparr>modified_root := t2, next_id := n' + length ps2\<rparr>)
            = st0\<lparr>modified_root := t3, next_id := n' + length ps2\<rparr>"
    unfolding t3_def
    using fold_set_points[of ps3 "st0\<lparr>modified_root := t2, next_id := n' + length ps2\<rparr>"] disj3
    by (simp add: st0_def)
  have "t3 = app (\<lambda>i. if i \<in> set ps3 then set_text (Some ''points'') else (\<lambda>m. m)) t2"
    unfolding t3_def
    by (rule fold_update_uniform[OF d2])
       (simp_all add: ps3_def distinct_found[OF d2] commutes_set_text)
  moreover have "erase (app (\<lambda>i. if i \<in> set ps3 then set_text (Some ''points'') else (\<lambda>m. m)) t2)
                 = root_pass ''shot_type'' (set_text (Some ''points'')) (erase t2)"
  proof (rule erase_root_app[OF d2, of "set ps3"])
    show "set ps3 = ident ` {y \<in> set (descendants t2). tag y = ''shot_type''}"
      unfolding ps3_def by (rule found_idents)
  qed simp_all
  ultimately have e3: "erase t3 = root_pass ''shot_type'' (set_text (Some ''points'')) (erase t2)"
    by simp
  \<comment> \<open>the call\<close>
  have "modify_xml n xroot = (xroot, t3)"
    unfolding modify_xml_def al
    using s1 s2 s3
    by (simp add: Let_def st0_def ps1_def ps2_def ps3_def)
  moreover have "erase t3 = rewrite_document (erase xroot)"
    by (simp add: e3 e2 e1 ec three_root_passes)
  ultimately show ?thesis by simp
qed


lemma transform_xml_refines:
  "fst (transform_xml doc) = fst (load_xml doc)
   \<and> erase (snd (transform_xml doc)) = rewrite_document (erase doc)"
proof -
  obtain xroot n where l: "alloc_element 0 doc = (xroot, n)"
    by (cases "alloc_element 0 doc")
  have "\<forall>i\<in>set (ids xroot). i < n" using alloc_ids(1)[OF l] by simp
  from modify_xml_refines[OF this] alloc_erase(1)[OF l] l
  show ?thesis by (simp add: transform_xml_def load_xml_def)
qed

lemma iter_elems_erase: "iter_elems (erase e) = map erase (iter_elems e)"
proof (induction e)
  case (Element i t a x l cs)
  have meq: "map (iter_elems \<circ> erase) cs = map (map erase \<circ> iter_elems) cs"
    using Element.IH by simp
  show ?case by (simp add: map_concat meq)
qed

lemma descendants_erase: "descendants (erase e) = map erase (descendants e)"
proof -
  have meq: "map (iter_elems \<circ> erase) (children e) = map (map erase \<circ> iter_elems) (children e)"
    by (simp add: iter_elems_erase)
  show ?thesis by (simp add: descendants_def map_concat meq)
qed

lemma iter_elems_self: "e \<in> set (iter_elems e)"
  by (cases e) simp

lemma iter_elems_child:
  "c \<in> set (children e) \<Longrightarrow> d \<in> set (iter_elems c) \<Longrightarrow> d \<in> set (iter_elems e)"
  by (cases e) auto

lemma rewrite_element_parameters:
  assumes "q \<in> set (iter_elems (rewrite_element e))" "tag q = ''parameters''"
  shows "\<exists>cs'. children q = cs' @ [something ()]
           \<and> (\<forall>c\<in>set cs'. tag c \<noteq> ''team_name'' \<and> tag c \<in> tag ` set (descendants e))"
  using assms
proof (induction e)
  case (Element i t a x l cs)
  let ?e = "Element i t a x l cs"
  have sub: "\<And>c d. c \<in> set cs \<Longrightarrow> d \<in> set (descendants c) \<Longrightarrow> d \<in> set (descendants ?e)"
  proof -
    fix c d assume c: "c \<in> set cs" and d: "d \<in> set (descendants c)"
    then obtain c' where "c' \<in> set (children c)" "d \<in> set (iter_elems c')"
      by (auto simp: descendants_def)
    then have "d \<in> set (iter_elems c)" by (rule iter_elems_child)
    with c show "d \<in> set (descendants ?e)" by auto
  qed
  have kids: "\<And>c. c \<in> set cs \<Longrightarrow> tag (rewrite_element c) \<in> tag ` set (descendants ?e)"
  proof -
    fix c assume c: "c \<in> set cs"
    then have "c \<in> set (descendants ?e)" using iter_elems_self[of c] by auto
    then show "tag (rewrite_element c) \<in> tag ` set (descendants ?e)" by force
  qed
  consider (self) "q = rewrite_element ?e"
    | (below) c where "c \<in> set cs" "q \<in> set (iter_elems (rewrite_element c))"
    | (new) "q = something ()"
    using Element.prems(1) by (auto simp: something_def split: if_splits)
  then show ?case
  proof cases
    case self
    then have t: "t = ''parameters''" using Element.prems(2) by simp
    have "children q = filter (\<lambda>c. tag c \<noteq> ''team_name'') (map rewrite_element cs) @ [something ()]"
      using self t by simp
    moreover have "\<forall>c\<in>set (filter (\<lambda>c. tag c \<noteq> ''team_name'') (map rewrite_element cs)).
                     tag c \<noteq> ''team_name'' \<and> tag c \<in> tag ` set (descendants ?e)"
      using kids by auto
    ultimately show ?thesis by blast
  next
    case below
    from Element.IH[OF below(1) below(2) Element.prems(2)]
    obtain cs' where cs': "children q = cs' @ [something ()]"
      "\<forall>k\<in>set cs'. tag k \<noteq> ''team_name'' \<and> tag k \<in> tag ` set (descendants c)"
      by blast
    have "\<forall>k\<in>set cs'. tag k \<noteq> ''team_name'' \<and> tag k \<in> tag ` set (descendants ?e)"
    proof
      fix k assume "k \<in> set cs'"
      with cs'(2) obtain d where "tag k \<noteq> ''team_name''" "d \<in> set (descendants c)" "tag k = tag d"
        by auto
      with sub[OF below(1)] show "tag k \<noteq> ''team_name'' \<and> tag k \<in> tag ` set (descendants ?e)"
        by auto
    qed
    with cs'(1) show ?thesis by blast
  next
    case new
    then show ?thesis using Element.prems(2) by (simp add: something_def)
  qed
qed

lemma rewrite_document_parameters:
  assumes "q \<in> set (descendants (rewrite_document r))" "tag q = ''parameters''"
  shows "\<exists>cs'. children q = cs' @ [something ()]
           \<and> (\<forall>c\<in>set cs'. tag c \<noteq> ''team_name'' \<and> tag c \<in> tag ` set (descendants r))"
proof -
  from assms(1) obtain c where c: "c \<in> set (children r)" "q \<in> set (iter_elems (rewrite_element c))"
    by (auto simp: rewrite_document_def)
  from rewrite_element_parameters[OF c(2) assms(2)]
  obtain cs' where cs': "children q = cs' @ [something ()]"
      "\<forall>k\<in>set cs'. tag k \<noteq> ''team_name'' \<and> tag k \<in> tag ` set (descendants c)"
    by blast
  have "\<forall>k\<in>set cs'. tag k \<noteq> ''team_name'' \<and> tag k \<in> tag ` set (descendants r)"
  proof
    fix k assume "k \<in> set cs'"
    with cs'(2) obtain d where d: "tag k \<noteq> ''team_name''" "d \<in> set (descendants c)" "tag k = tag d"
      by auto
    then obtain c' where "c' \<in> set (children c)" "d \<in> set (iter_elems c')"
      by (auto simp: descendants_def)
    then have "d \<in> set (iter_elems c)" by (rule iter_elems_child)
    with c(1) have "d \<in> set (descendants r)" by (auto simp: descendants_def)
    with d show "tag k \<noteq> ''team_name'' \<and> tag k \<in> tag ` set (descendants r)" by auto
  qed
  with cs'(1) show ?thesis by blast
qed

lemma transform_xml_parameters:
  assumes "p \<in> set (findall_descendants ''parameters'' (snd (transform_xml doc)))"
  shows "\<exists>cs' s. children p = cs' @ [s] \<and> erase s = something ()
           \<and> (\<forall>c\<in>set cs'. tag c \<noteq> ''team_name'' \<and> tag c \<in> tag ` set (descendants doc))"
proof -
  let ?t = "snd (transform_xml doc)"
  from assms have p: "p \<in> set (descendants ?t)" "tag p = ''parameters''"
    by (auto simp: findall_descendants_def)
  have "erase p \<in> set (descendants (rewrite_document (erase doc)))"
    using p(1) transform_xml_refines[of doc] descendants_erase[of ?t] by auto
  from rewrite_document_parameters[OF this] p(2)
  obtain cs' where cs': "map erase (children p) = cs' @ [something ()]"
      "\<forall>c\<in>set cs'. tag c \<noteq> ''team_name'' \<and> tag c \<in> tag ` set (descendants (erase doc))"
    by auto
  from cs'(1) have ne: "children p \<noteq> []" by auto
  then have bl: "children p = butlast (children p) @ [last (children p)]" by simp
  have "map erase (butlast (children p)) @ [erase (last (children p))] = cs' @ [something ()]"
    using cs'(1) bl by (metis list.simps(8) list.simps(9) map_append)
  then have e: "map erase (butlast (children p)) = cs'" "erase (last (children p)) = something ()"
    by simp_all
  have "\<forall>c\<in>set (butlast (children p)). tag c \<noteq> ''team_name'' \<and> tag c \<in> tag ` set (descendants doc)"
  proof
    fix c assume "c \<in> set (butlast (children p))"
    then have "erase c \<in> set cs'" using e(1) by auto
    with cs'(2) have "tag c \<noteq> ''team_name''" "tag c \<in> tag ` set (descendants (erase doc))"
      by auto
    then show "tag c \<noteq> ''team_name'' \<and> tag c \<in> tag ` set (descendants doc)"
      by (auto simp: descendants_erase)
  qed
  with bl e(2) show ?thesis by blast
qed

subsection \<open>Where a \<open>parameters\<close> element of the result comes from\<close>

lemma rewrite_element_etext:
  "etext (rewrite_element e) = (if tag e = ''shot_type'' then Some ''points'' else etext e)"
  by (cases e) simp

lemma rewrite_element_children_parameters:
  "tag e = ''parameters'' \<Longrightarrow>
   children (rewrite_element e)
   = filter (\<lambda>c. tag c \<noteq> ''team_name'') (map rewrite_element (children e)) @ [something ()]"
  by (cases e) simp

lemma rewrite_element_origin:
  assumes "q \<in> set (iter_elems (rewrite_element e0))" "tag q = ''parameters''"
  shows "\<exists>e\<in>set (iter_elems e0). tag e = ''parameters'' \<and> q = rewrite_element e"
  using assms
proof (induction e0)
  case (Element i t a x l cs)
  let ?e = "Element i t a x l cs"
  consider (self) "q = rewrite_element ?e"
    | (below) c where "c \<in> set cs" "q \<in> set (iter_elems (rewrite_element c))"
    | (new) "q = something ()"
    using Element.prems(1) by (auto simp: something_def split: if_splits)
  then show ?case
  proof cases
    case self
    then have "tag ?e = ''parameters''" using Element.prems(2) by simp
    with self show ?thesis using iter_elems_self[of ?e] by blast
  next
    case below
    from Element.IH[OF below(1) below(2) Element.prems(2)]
    obtain e where e: "e \<in> set (iter_elems c)" "tag e = ''parameters''" "q = rewrite_element e"
      by blast
    have "e \<in> set (iter_elems ?e)" using below(1) e(1) by auto
    with e show ?thesis by blast
  next
    case new
    then show ?thesis using Element.prems(2) by (simp add: something_def)
  qed
qed

lemma rewrite_document_origin:
  assumes "q \<in> set (descendants (rewrite_document r))" "tag q = ''parameters''"
  shows "\<exists>e\<in>set (descendants r). tag e = ''parameters'' \<and> q = rewrite_element e"
proof -
  from assms(1) obtain c where c: "c \<in> set (children r)" "q \<in> set (iter_elems (rewrite_element c))"
    by (auto simp: rewrite_document_def)
  from rewrite_element_origin[OF c(2) assms(2)]
  obtain e where e: "e \<in> set (iter_elems c)" "tag e = ''parameters''" "q = rewrite_element e"
    by blast
  have "e \<in> set (descendants r)" using c(1) e(1) by (auto simp: descendants_def)
  with e show ?thesis by blast
qed

lemma transform_xml_origin:
  assumes "p \<in> set (findall_descendants ''parameters'' (snd (transform_xml doc)))"
  shows "\<exists>e\<in>set (findall_descendants ''parameters'' doc).
           map erase (children p)
           = filter (\<lambda>c. tag c \<noteq> ''team_name'') (map rewrite_element (map erase (children e)))
             @ [something ()]"
proof -
  let ?t = "snd (transform_xml doc)"
  from assms have p: "p \<in> set (descendants ?t)" "tag p = ''parameters''"
    by (auto simp: findall_descendants_def)
  have "erase p \<in> set (descendants (rewrite_document (erase doc)))"
    using p(1) transform_xml_refines[of doc] descendants_erase[of ?t] by auto
  from rewrite_document_origin[OF this] p(2)
  obtain e' where e': "e' \<in> set (descendants (erase doc))" "tag e' = ''parameters''"
      "erase p = rewrite_element e'"
    by auto
  from e'(1) obtain e where e: "e \<in> set (descendants doc)" "e' = erase e"
    by (auto simp: descendants_erase)
  have "tag e = ''parameters''" using e'(2) e(2) by simp
  with e(1) have m: "e \<in> set (findall_descendants ''parameters'' doc)"
    by (simp add: findall_descendants_def)
  have "children (erase p) = children (rewrite_element e')" by (simp add: e'(3))
  then have "map erase (children p)
        = filter (\<lambda>c. tag c \<noteq> ''team_name'') (map rewrite_element (map erase (children e)))
          @ [something ()]"
    using rewrite_element_children_parameters[OF e'(2)] e(2) by simp
  with m show ?thesis by blast
qed

lemma tags_of_kept_children:
  "map tag (filter (\<lambda>c. tag c \<noteq> T) (map (rewrite_element \<circ> erase) cs))
   = filter (\<lambda>t. t \<noteq> T) (map tag cs)"
  by (induction cs) simp_all

lemma texts_of_kept_children:
  "T \<noteq> ''shot_type'' \<Longrightarrow>
   map etext (filter (\<lambda>c. tag c = T) (map (rewrite_element \<circ> erase) cs))
   = map etext (filter (\<lambda>c. tag c = T) cs)"
  by (induction cs) (simp_all add: rewrite_element_etext)

lemma texts_of_erased_children:
  "map etext (filter (\<lambda>c. tag c = T) (map erase cs)) = map etext (filter (\<lambda>c. tag c = T) cs)"
  by (induction cs) simp_all

section \<open>Properties of the XML transform\<close>

text \<open>
  Four documents: Scenario 3 of the description,
  \<^verbatim>\<open><root><parameters><play><team_name>Lakers</team_name></play></parameters></root>\<close>,
  \<^verbatim>\<open><parameters><team_name>Lakers</team_name></parameters>\<close> and
  \<^verbatim>\<open><root><parameters><something>1</something></parameters></root>\<close>.
\<close>

definition scenario3 :: "unit element" where
  "scenario3 =
     Element () ''root'' [] None None
       [Element () ''parameters'' [] None None
          [Element () ''team_name'' [] (Some ''Lakers'') None [],
           Element () ''shot_type'' [] (Some ''jumper'') None []]]"

definition nested_team_name_doc :: "unit element" where
  "nested_team_name_doc =
     Element () ''root'' [] None None
       [Element () ''parameters'' [] None None
          [Element () ''play'' [] None None
             [Element () ''team_name'' [] (Some ''Lakers'') None []]]]"

definition parameters_root_doc :: "unit element" where
  "parameters_root_doc =
     Element () ''parameters'' [] None None
       [Element () ''team_name'' [] (Some ''Lakers'') None []]"

definition repeated_something_doc :: "unit element" where
  "repeated_something_doc =
     Element () ''root'' [] None None
       [Element () ''parameters'' [] None None
          [Element () ''something'' [] (Some ''1'') None []]]"

text \<open>
  No \<open>team_name\<close> element at any depth below any \<open>parameters\<close> element of the tree, the
  root included.
\<close>

definition no_team_name_under_parameters :: "'i element \<Rightarrow> bool" where
  "no_team_name_under_parameters t =
     (\<forall>p\<in>set (iter_elems t).
        tag p = ''parameters'' \<longrightarrow> findall_descendants ''team_name'' p = [])"

text \<open>
  Every \<open>parameters\<close> element of the tree, the root included, has exactly one \<open>something\<close>
  child, with text \<open>2\<close>.
\<close>

definition one_something_per_parameters :: "'i element \<Rightarrow> bool" where
  "one_something_per_parameters t =
     (\<forall>p\<in>set (iter_elems t).
        tag p = ''parameters'' \<longrightarrow> map etext (findall_children ''something'' p) = [Some ''2''])"

text \<open>
  The transform finds the \<open>parameters\<close> elements with \<^verbatim>\<open>findall(".//parameters")\<close>, which
  leaves the root out, and their \<open>team_name\<close> elements with \<^verbatim>\<open>findall("team_name")\<close>, which
  only sees children.  So a \<open>team_name\<close> two levels below a \<open>parameters\<close> element stays,
  and a document whose root is the \<open>parameters\<close> element comes back as it was.
\<close>

lemma out_nested:
  "erase (snd (transform_xml nested_team_name_doc))
   = Element () ''root'' [] None None
       [Element () ''parameters'' [] None None
          [Element () ''play'' [] None None
             [Element () ''team_name'' [] (Some ''Lakers'') None []],
           Element () ''something'' [] (Some ''2'') None []]]"
  by code_simp

lemma out_root: "erase (snd (transform_xml parameters_root_doc)) = parameters_root_doc"
  by code_simp

text \<open>In both documents a \<open>team_name\<close> element remains under a \<open>parameters\<close> element.\<close>

theorem team_name_remains_under_parameters:
  "\<not> no_team_name_under_parameters (snd (transform_xml nested_team_name_doc))
   \<and> \<not> no_team_name_under_parameters (snd (transform_xml parameters_root_doc))"
  by code_simp

text \<open>
  C1, amended.  For every XML document, after the transform no \<open>team_name\<close> element is a
  child of a \<open>parameters\<close> element that lies below the root of the modified tree.
\<close>

theorem transform_xml_removes_team_name_children:
  "\<forall>p\<in>set (findall_descendants ''parameters'' (snd (transform_xml doc))).
     findall_children ''team_name'' p = []"
proof
  fix p assume "p \<in> set (findall_descendants ''parameters'' (snd (transform_xml doc)))"
  from transform_xml_parameters[OF this]
  obtain cs' s where c: "children p = cs' @ [s]" "erase s = something ()"
    "\<forall>c\<in>set cs'. tag c \<noteq> ''team_name'' \<and> tag c \<in> tag ` set (descendants doc)"
    by blast
  from c(2) have "tag (erase s) = ''something''" by (simp add: something_def)
  then have "tag s \<noteq> ''team_name''" by simp
  with c(1,3) show "findall_children ''team_name'' p = []"
    by (auto simp: findall_children_def filter_empty_conv)
qed

theorem transform_xml_removes_team_name_children_witness:
  "findall_descendants ''parameters'' (snd (transform_xml scenario3)) \<noteq> []
   \<and> findall_children ''team_name''
        (hd (findall_descendants ''parameters'' (snd (transform_xml scenario3)))) = []"
proof -
  have a: "findall_descendants ''parameters'' (snd (transform_xml scenario3)) \<noteq> []"
    by code_simp
  then have "hd (findall_descendants ''parameters'' (snd (transform_xml scenario3)))
             \<in> set (findall_descendants ''parameters'' (snd (transform_xml scenario3)))"
    by simp
  with transform_xml_removes_team_name_children[of scenario3] a show ?thesis by blast
qed

text \<open>
  A \<open>parameters\<close> root gets no \<open>something\<close> child, and a \<open>parameters\<close> element that already
  has a \<open>something\<close> child has two of them afterwards.
\<close>

theorem parameters_without_one_something:
  "\<not> one_something_per_parameters (snd (transform_xml parameters_root_doc))
   \<and> \<not> one_something_per_parameters (snd (transform_xml repeated_something_doc))"
  by code_simp

text \<open>
  C3, amended.  For every XML document, after the transform every \<open>parameters\<close> element
  below the root of the modified tree has gained exactly one \<open>something\<close> child: there is a
  \<open>parameters\<close> element below the root of the input such that its children are those of that
  element without the \<open>team_name\<close> ones, followed by one new last child, a \<open>something\<close>
  element with text \<open>2\<close> and no children; its \<open>something\<close> children are those of the input
  element, with their texts, followed by the new one.
\<close>

theorem transform_xml_appends_something:
  "\<forall>p\<in>set (findall_descendants ''parameters'' (snd (transform_xml doc))).
     children p \<noteq> []
     \<and> tag (last (children p)) = ''something''
     \<and> etext (last (children p)) = Some ''2''
     \<and> children (last (children p)) = []
     \<and> (\<exists>e\<in>set (findall_descendants ''parameters'' doc).
           map tag (children p)
             = filter (\<lambda>t. t \<noteq> ''team_name'') (map tag (children e)) @ [''something'']
           \<and> map etext (findall_children ''something'' p)
             = map etext (findall_children ''something'' e) @ [Some ''2''])"
proof
  fix p assume p: "p \<in> set (findall_descendants ''parameters'' (snd (transform_xml doc)))"
  from transform_xml_parameters[OF p]
  obtain cs' s where c: "children p = cs' @ [s]" "erase s = something ()"
    by blast
  have "tag (erase s) = ''something''" "etext (erase s) = Some ''2''" "children (erase s) = []"
    unfolding c(2) by (simp_all add: something_def)
  then have s: "tag s = ''something''" "etext s = Some ''2''" "children s = []" by simp_all
  from transform_xml_origin[OF p]
  obtain e where e: "e \<in> set (findall_descendants ''parameters'' doc)"
    and k: "map erase (children p)
            = filter (\<lambda>c. tag c \<noteq> ''team_name'') (map rewrite_element (map erase (children e)))
              @ [something ()]"
    by blast
  have "map tag (children p) = map tag (map erase (children p))" by simp
  also have "\<dots> = filter (\<lambda>t. t \<noteq> ''team_name'') (map tag (children e)) @ [''something'']"
    unfolding k by (simp add: tags_of_kept_children something_def)
  finally have tags: "map tag (children p)
      = filter (\<lambda>t. t \<noteq> ''team_name'') (map tag (children e)) @ [''something'']" .
  have "map etext (findall_children ''something'' p)
        = map etext (filter (\<lambda>c. tag c = ''something'') (map erase (children p)))"
    by (simp add: findall_children_def texts_of_erased_children)
  also have "\<dots> = map etext (filter (\<lambda>c. tag c = ''something'')
                        (map rewrite_element (map erase (children e)))) @ [Some ''2'']"
  proof -
    have "(\<lambda>c :: unit element. tag c \<noteq> ''team_name'' \<and> tag c = ''something'')
          = (\<lambda>c. tag c = ''something'')"
      by auto
    then show ?thesis unfolding k by (simp add: something_def)
  qed
  also have "\<dots> = map etext (findall_children ''something'' e) @ [Some ''2'']"
    by (simp add: texts_of_kept_children findall_children_def)
  finally have texts: "map etext (findall_children ''something'' p)
      = map etext (findall_children ''something'' e) @ [Some ''2'']" .
  from c(1) s e tags texts
  show "children p \<noteq> []
     \<and> tag (last (children p)) = ''something''
     \<and> etext (last (children p)) = Some ''2''
     \<and> children (last (children p)) = []
     \<and> (\<exists>e\<in>set (findall_descendants ''parameters'' doc).
           map tag (children p)
             = filter (\<lambda>t. t \<noteq> ''team_name'') (map tag (children e)) @ [''something'']
           \<and> map etext (findall_children ''something'' p)
             = map etext (findall_children ''something'' e) @ [Some ''2''])"
    by auto
qed

text \<open>
  In Scenario 3 the \<open>parameters\<close> element ends with the children \<open>shot_type\<close> and
  \<open>something\<close>; in the document with a \<open>something\<close> child of text \<open>1\<close> it ends with that child
  and the new one.
\<close>

theorem transform_xml_appends_something_witness:
  "findall_descendants ''parameters'' (snd (transform_xml scenario3)) \<noteq> []
   \<and> tag (last (children (hd (findall_descendants ''parameters'' (snd (transform_xml scenario3))))))
       = ''something''
   \<and> etext (last (children (hd (findall_descendants ''parameters'' (snd (transform_xml scenario3))))))
       = Some ''2''
   \<and> map tag (children (hd (findall_descendants ''parameters'' (snd (transform_xml scenario3)))))
       = [''shot_type'', ''something'']
   \<and> map etext (findall_children ''something''
        (hd (findall_descendants ''parameters'' (snd (transform_xml repeated_something_doc)))))
       = [Some ''1'', Some ''2'']"
proof -
  let ?out = "findall_descendants ''parameters'' (snd (transform_xml scenario3))"
  let ?out2 = "findall_descendants ''parameters'' (snd (transform_xml repeated_something_doc))"
  have a: "?out \<noteq> []" by code_simp
  have a2: "?out2 \<noteq> []" by code_simp
  have i: "findall_descendants ''parameters'' scenario3
           = [Element () ''parameters'' [] None None
                [Element () ''team_name'' [] (Some ''Lakers'') None [],
                 Element () ''shot_type'' [] (Some ''jumper'') None []]]"
    by code_simp
  have i2: "findall_descendants ''parameters'' repeated_something_doc
           = [Element () ''parameters'' [] None None
                [Element () ''something'' [] (Some ''1'') None []]]"
    by code_simp
  from a have m: "hd ?out \<in> set ?out" by simp
  from a2 have m2: "hd ?out2 \<in> set ?out2" by simp
  from transform_xml_appends_something[of scenario3] m
  have l: "tag (last (children (hd ?out))) = ''something''"
          "etext (last (children (hd ?out))) = Some ''2''"
    and "\<exists>e\<in>set (findall_descendants ''parameters'' scenario3).
           map tag (children (hd ?out))
             = filter (\<lambda>t. t \<noteq> ''team_name'') (map tag (children e)) @ [''something'']"
    by blast+
  then have tg: "map tag (children (hd ?out)) = [''shot_type'', ''something'']"
    unfolding i by simp
  from transform_xml_appends_something[of repeated_something_doc] m2
  have "\<exists>e\<in>set (findall_descendants ''parameters'' repeated_something_doc).
           map etext (findall_children ''something'' (hd ?out2))
             = map etext (findall_children ''something'' e) @ [Some ''2'']"
    by blast
  then have tx: "map etext (findall_children ''something'' (hd ?out2)) = [Some ''1'', Some ''2'']"
    unfolding i2 by (simp add: findall_children_def)
  show ?thesis using a l tg tx by simp
qed

section \<open>The transforms leave the caller's document as it was\<close>

text \<open>
  An update of the object \<open>i\<close> changes nothing in a value that does not hold the object,
  and the objects of a copy are new.
\<close>

lemma update_obj_absent:
  "i \<notin> set (json_ids v) \<Longrightarrow> update_obj i f v = v"
  "i \<notin> set (jsons_ids xs) \<Longrightarrow> update_objs i f xs = xs"
  "i \<notin> set (items_ids kvs) \<Longrightarrow> update_items i f kvs = kvs"
  by (induction i f v and i f xs and i f kvs rule: update_obj_update_objs_update_items.induct)
     auto

lemma lookup_obj_absent:
  "i \<notin> set (json_ids v) \<Longrightarrow> lookup_obj i v = None"
  "i \<notin> set (jsons_ids xs) \<Longrightarrow> lookup_objs i xs = None"
  "i \<notin> set (items_ids kvs) \<Longrightarrow> lookup_items i kvs = None"
  by (induction i v and i xs and i kvs rule: lookup_obj_lookup_objs_lookup_items.induct)
     auto

lemma lookup_obj_ids:
  "lookup_obj i v = Some w \<Longrightarrow> set (json_ids w) \<subseteq> set (json_ids v)"
  "lookup_objs i xs = Some w \<Longrightarrow> set (json_ids w) \<subseteq> set (jsons_ids xs)"
  "lookup_items i kvs = Some w \<Longrightarrow> set (json_ids w) \<subseteq> set (items_ids kvs)"
  by (induction i v and i xs and i kvs rule: lookup_obj_lookup_objs_lookup_items.induct)
     (auto split: if_splits option.splits)

lemma update_obj_ids:
  "\<forall>w. set (json_ids (f w)) \<subseteq> set (json_ids w) \<Longrightarrow>
     set (json_ids (update_obj i f v)) \<subseteq> set (json_ids v)"
  "\<forall>w. set (json_ids (f w)) \<subseteq> set (json_ids w) \<Longrightarrow>
     set (jsons_ids (update_objs i f xs)) \<subseteq> set (jsons_ids xs)"
  "\<forall>w. set (json_ids (f w)) \<subseteq> set (json_ids w) \<Longrightarrow>
     set (items_ids (update_items i f kvs)) \<subseteq> set (items_ids kvs)"
proof (induction i f v and i f xs and i f kvs rule: update_obj_update_objs_update_items.induct)
  case (6 i f j xs)
  show ?case
  proof (cases "i = j")
    case True
    then show ?thesis using "6.prems"[rule_format, of "JList j xs"] by simp
  next
    case False
    then show ?thesis using "6.IH"[OF False "6.prems"] by auto
  qed
next
  case (7 i f j kvs)
  show ?case
  proof (cases "i = j")
    case True
    then show ?thesis using "7.prems"[rule_format, of "JDict j kvs"] by simp
  next
    case False
    then show ?thesis using "7.IH"[OF False "7.prems"] by auto
  qed
qed auto

lemma items_set_ids:
  "set (items_ids (items_set k v kvs)) \<subseteq> set (json_ids v) \<union> set (items_ids kvs)"
  by (induction kvs) auto

lemma items_del_ids: "set (items_ids (items_del k kvs)) \<subseteq> set (items_ids kvs)"
  by (induction kvs) (auto simp: items_del_def)

lemma dict_setitem_ids:
  "set (json_ids (dict_setitem k (JStr s) d)) \<subseteq> set (json_ids d)"
  using items_set_ids[of k "JStr s"] by (cases d) (fastforce simp: dict_setitem_def)+

lemma dict_delitem_ids: "set (json_ids (dict_delitem k d)) \<subseteq> set (json_ids d)"
  using items_del_ids[of k] by (cases d) (fastforce simp: dict_delitem_def)+

lemma map_of_ids: "map_of kvs k = Some pv \<Longrightarrow> set (json_ids pv) \<subseteq> set (items_ids kvs)"
  by (induction kvs) (auto split: if_splits)

lemma alloc_json_ids:
  "alloc_json n (v :: 'i json) = (v', n') \<Longrightarrow> json_ids v' = [n..<n'] \<and> n \<le> n'"
  "alloc_jsons n (xs :: 'i json list) = (xs', n') \<Longrightarrow> jsons_ids xs' = [n..<n'] \<and> n \<le> n'"
  "alloc_items n (kvs :: (string \<times> 'i json) list) = (kvs', n') \<Longrightarrow> items_ids kvs' = [n..<n'] \<and> n \<le> n'"
proof (induction n v and n xs and n kvs arbitrary: v' n' and xs' n' and kvs' n'
       rule: alloc_json_alloc_jsons_alloc_items.induct)
  case (6 n uu xs)
  obtain xs1 n1 where c: "alloc_jsons (Suc n) xs = (xs1, n1)" by (cases "alloc_jsons (Suc n) xs")
  from "6.IH"[OF c] have "jsons_ids xs1 = [Suc n..<n1]" "Suc n \<le> n1" by simp_all
  with "6.prems" c show ?case by (auto simp: upt_conv_Cons)
next
  case (7 n uv kvs)
  obtain kvs1 n1 where c: "alloc_items (Suc n) kvs = (kvs1, n1)" by (cases "alloc_items (Suc n) kvs")
  from "7.IH"[OF c] have "items_ids kvs1 = [Suc n..<n1]" "Suc n \<le> n1" by simp_all
  with "7.prems" c show ?case by (auto simp: upt_conv_Cons)
next
  case (9 n x xs)
  obtain x1 n1 where c: "alloc_json n x = (x1, n1)" by (cases "alloc_json n x")
  obtain xs1 n2 where d: "alloc_jsons n1 xs = (xs1, n2)" by (cases "alloc_jsons n1 xs")
  from "9.IH"(1)[OF c] have a: "json_ids x1 = [n..<n1]" "n \<le> n1" by simp_all
  from "9.IH"(2)[OF c[symmetric] d] have b: "jsons_ids xs1 = [n1..<n2]" "n1 \<le> n2" by simp_all
  have "[n..<n1] @ [n1..<n2] = [n..<n2]" using a(2) b(2) by (metis le_Suc_ex upt_add_eq_append)
  with "9.prems" c d a b show ?case by auto
next
  case (11 n kv kvs)
  obtain x1 n1 where c: "alloc_json n (snd kv) = (x1, n1)" by (cases "alloc_json n (snd kv)")
  obtain xs1 n2 where d: "alloc_items n1 kvs = (xs1, n2)" by (cases "alloc_items n1 kvs")
  from "11.IH"(1)[OF c] have a: "json_ids x1 = [n..<n1]" "n \<le> n1" by simp_all
  from "11.IH"(2)[OF c[symmetric] d] have b: "items_ids xs1 = [n1..<n2]" "n1 \<le> n2" by simp_all
  have "[n..<n1] @ [n1..<n2] = [n..<n2]" using a(2) b(2) by (metis le_Suc_ex upt_add_eq_append)
  with "11.prems" c d a b show ?case by auto
qed auto


text \<open>
  The caller's value only has objects older than \<open>n\<close>, the copy only objects built from
  \<open>n\<close> on.  \<open>final_vars\<close>: the variables when the loop has returned or raised.
\<close>

definition fresh_copy :: "nat \<Rightarrow> json_vars \<Rightarrow> bool" where
  "fresh_copy n st =
     ((\<forall>i\<in>set (json_ids (json_data st)). i < n)
      \<and> (\<forall>i\<in>set (json_ids (modified_data st)). n \<le> i))"

definition final_vars :: "error \<times> json_vars + json_vars \<Rightarrow> json_vars" where
  "final_vars r = (case r of Inl (e, st) \<Rightarrow> st | Inr st \<Rightarrow> st)"

lemma final_vars_simps [simp]:
  "final_vars (Inl (e, st)) = st" "final_vars (Inr st) = st"
  by (simp_all add: final_vars_def)

lemma mutate_json_frame:
  assumes "fresh_copy n st" "n \<le> i" "\<forall>w. set (json_ids (f w)) \<subseteq> set (json_ids w)"
  shows "json_data (mutate_json i f st) = json_data st \<and> fresh_copy n (mutate_json i f st)"
proof -
  have "i \<notin> set (json_ids (json_data st))" using assms(1,2) by (fastforce simp: fresh_copy_def)
  then have a: "update_obj i f (json_data st) = json_data st" by (rule update_obj_absent(1))
  have "set (json_ids (update_obj i f (modified_data st))) \<subseteq> set (json_ids (modified_data st))"
    by (rule update_obj_ids(1)[OF assms(3)])
  with a assms(1) show ?thesis by (auto simp: mutate_json_def fresh_copy_def)
qed

lemma deref_json_fresh:
  assumes "fresh_copy n st" "n \<le> d" "deref_json d st = Some v"
  shows "\<forall>i\<in>set (json_ids v). n \<le> i"
proof -
  have "d \<notin> set (json_ids (json_data st))" using assms(1,2) by (fastforce simp: fresh_copy_def)
  then have "lookup_obj d (json_data st) = None" by (rule lookup_obj_absent(1))
  with assms(3) have "lookup_obj d (modified_data st) = Some v"
    by (auto simp: deref_json_def split: option.splits)
  from lookup_obj_ids(1)[OF this] assms(1) show ?thesis by (auto simp: fresh_copy_def)
qed

lemma del_offensive_player_frame:
  assumes "fresh_copy n st" "\<forall>i\<in>set (json_ids pv). n \<le> i"
  shows "json_data (final_vars (del_offensive_player pv st)) = json_data st
         \<and> fresh_copy n (final_vars (del_offensive_player pv st))"
proof (cases pv)
  case (JDict pd kvs)
  then have "n \<le> pd" using assms(2) by simp
  from mutate_json_frame[OF assms(1) this, of "dict_delitem ''offensive_player''"] JDict
  show ?thesis by (simp add: del_offensive_player_def dict_delitem_ids)
qed (use assms(1) in \<open>simp_all add: del_offensive_player_def\<close>)

lemma modify_item_frame:
  assumes f: "fresh_copy n st" and low: "\<forall>i\<in>set (json_ids item). n \<le> i"
  shows "json_data (final_vars (modify_item item st)) = json_data st
         \<and> fresh_copy n (final_vars (modify_item item st))"
proof (cases item)
  case (JDict d kvs0)
  then have d: "n \<le> d" using low by simp
  define st1 where "st1 = mutate_json d (dict_setitem ''user_query'' (JStr user_query_text)) st"
  define st2 where "st2 = mutate_json d (dict_setitem ''new'' (JStr ''Something'')) st1"
  have s1: "json_data st1 = json_data st" "fresh_copy n st1"
    using mutate_json_frame[OF f d, of "dict_setitem ''user_query'' (JStr user_query_text)"]
    by (simp_all add: st1_def dict_setitem_ids)
  have s2: "json_data st2 = json_data st" "fresh_copy n st2"
    using mutate_json_frame[OF s1(2) d, of "dict_setitem ''new'' (JStr ''Something'')"] s1(1)
    by (simp_all add: st2_def dict_setitem_ids)
  have m: "modify_item item st =
             (case deref_json d st2 of
                Some (JDict _ kvs) \<Rightarrow>
                  (if items_has ''parameters'' kvs then
                     (case map_of kvs ''parameters'' of
                        Some pv \<Rightarrow>
                          (case str_in ''offensive_player'' pv of
                             Inl e \<Rightarrow> Inl (e, st2)
                           | Inr True \<Rightarrow> del_offensive_player pv st2
                           | Inr False \<Rightarrow> Inr st2)
                      | None \<Rightarrow> Inr st2)
                   else Inr st2)
              | _ \<Rightarrow> Inr st2)"
    unfolding modify_item_def JDict st1_def st2_def Let_def by simp
  have del: "json_data (final_vars (del_offensive_player pv st2)) = json_data st
             \<and> fresh_copy n (final_vars (del_offensive_player pv st2))"
    if dr: "deref_json d st2 = Some (JDict j kvs)" and mp: "map_of kvs ''parameters'' = Some pv"
    for j kvs pv
  proof -
    have "\<forall>i\<in>set (json_ids (JDict j kvs)). n \<le> i" by (rule deref_json_fresh[OF s2(2) d dr])
    moreover have "set (json_ids pv) \<subseteq> set (items_ids kvs)" by (rule map_of_ids[OF mp])
    ultimately have "\<forall>i\<in>set (json_ids pv). n \<le> i" by auto
    from del_offensive_player_frame[OF s2(2) this] s2(1) show ?thesis by simp
  qed
  show ?thesis
    unfolding m using s2 del
    by (auto split: option.splits json.splits sum.splits bool.splits)
qed (use f in \<open>simp_all add: modify_item_def\<close>)

lemma modify_items_frame:
  "fresh_copy n st \<Longrightarrow> \<forall>i\<in>set (jsons_ids items). n \<le> i \<Longrightarrow>
   json_data (final_vars (modify_items items st)) = json_data st
   \<and> fresh_copy n (final_vars (modify_items items st))"
proof (induction items arbitrary: st)
  case Nil
  then show ?case by simp
next
  case (Cons item items)
  have a: "\<forall>i\<in>set (json_ids item). n \<le> i" and b: "\<forall>i\<in>set (jsons_ids items). n \<le> i"
    using Cons.prems(2) by auto
  note h = modify_item_frame[OF Cons.prems(1) a]
  show ?case
  proof (cases "modify_item item st")
    case (Inl raised)
    then show ?thesis using h by (cases raised) simp
  next
    case (Inr st')
    with h have "json_data st' = json_data st" "fresh_copy n st'" by simp_all
    with Cons.IH[OF this(2) b] Inr show ?thesis by simp
  qed
qed

lemma modify_json_frame:
  assumes "\<forall>i\<in>set (json_ids jd). i < n"
  shows "fst (modify_json n jd) = jd"
proof (cases "jd = JNull")
  case True
  then show ?thesis by (simp add: modify_json_def)
next
  case False
  obtain copy n' where al: "alloc_json n jd = (copy, n')" by (cases "alloc_json n jd")
  define st where "st = \<lparr>json_data = jd, modified_data = copy\<rparr>"
  have ic: "\<forall>i\<in>set (json_ids copy). n \<le> i" using alloc_json_ids(1)[OF al] by simp
  have f: "fresh_copy n st" using assms ic by (simp add: fresh_copy_def st_def)
  have jd: "json_data st = jd" by (simp add: st_def)
  show ?thesis
  proof (cases copy)
    case (JList j items)
    have "\<forall>i\<in>set (jsons_ids items). n \<le> i" using ic JList by simp
    from modify_items_frame[OF f this] jd
    have "json_data (final_vars (modify_items items st)) = jd" by simp
    then show ?thesis
      using False al JList
      by (cases "modify_items items st")
         (auto simp: modify_json_def st_def split: prod.splits)
  next
    case (JDict d kvs0)
    have d: "n \<le> d" using ic JDict by simp
    define st1 where
      "st1 = mutate_json d (dict_setitem ''new_field'' (JStr ''This is a new value'')) st"
    have s1: "json_data st1 = jd" "fresh_copy n st1"
      using mutate_json_frame[OF f d, of "dict_setitem ''new_field'' (JStr ''This is a new value'')"] jd
      by (simp_all add: st1_def dict_setitem_ids)
    have s2: "json_data (mutate_json d (dict_delitem ''to_delete'') st1) = jd"
      using mutate_json_frame[OF s1(2) d, of "dict_delitem ''to_delete''"] s1(1)
      by (simp add: dict_delitem_ids)
    show ?thesis
      using False al JDict s1(1) s2
      by (auto simp: modify_json_def st_def st1_def Let_def
               split: option.splits json.splits)
  qed (use False al in \<open>simp_all add: modify_json_def\<close>)
qed

lemma transform_json_frame: "fst (transform_json doc) = fst (load_json doc)"
proof -
  obtain jd n where l: "alloc_json 0 doc = (jd, n)" by (cases "alloc_json 0 doc")
  have "\<forall>i\<in>set (json_ids jd). i < n" using alloc_json_ids(1)[OF l] by simp
  from modify_json_frame[OF this] l show ?thesis
    by (simp add: transform_json_def load_json_def)
qed

text \<open>
  Had the transform worked on the caller's object itself, the caller would see the update:
  here the next identity \<open>0\<close> is the one the caller's dict already has.
\<close>

lemma shared_object_is_updated:
  "fst (modify_json 0 (JDict 0 [])) = JDict 0 [(''new_field'', JStr ''This is a new value'')]"
  by code_simp

text \<open>
  C4.  Running a transform leaves the caller's document unchanged, also when the JSON
  transform raises: after the call the original JSON value and the original XML tree are
  what they were when loaded, so they serialize to the same text as before.
\<close>

theorem transform_leaves_original_unchanged:
  "fst (transform_json jdoc) = fst (load_json jdoc)
   \<and> json_dumps (fst (transform_json jdoc)) = json_dumps (fst (load_json jdoc))
   \<and> fst (transform_xml xdoc) = fst (load_xml xdoc)
   \<and> prettify_xml lib (fst (transform_xml xdoc)) = prettify_xml lib (fst (load_xml xdoc))"
  using transform_json_frame[of jdoc] transform_xml_refines[of xdoc] by simp

end
